theory Spec2Isabelle
  imports Main "HOL-Library.AList"
begin

section \<open>The N-Queens CSP solver of \<^verbatim>\<open>p2_n_queens/n_queens.py\<close>\<close>

subsection \<open>Data\<close>

text \<open>
  Rows, columns and the board size are Python integers, hence \<^typ>\<open>int\<close>.
  A Python \<^verbatim>\<open>dict\<close> from rows to columns is an association list in insertion
  order (\<^const>\<open>AList.update\<close> overwrites in place or appends, \<^const>\<open>AList.delete\<close>
  removes). The attribute \<^verbatim>\<open>self.domains\<close> maps every row of \<^verbatim>\<open>range(n)\<close> to a
  set of columns; the model maps every row to the list of that set's members in the
  order in which CPython iterates a set built from small non-negative integers, which
  is increasing order (see \<open>set_update\<close> below for a set that gets members back after a
  removal). Rows outside \<^verbatim>\<open>range(n)\<close> are never looked up by the code.
\<close>

type_synonym dict = "(int \<times> int) list"
type_synonym domains = "int \<Rightarrow> int list"

definition py_range :: "int \<Rightarrow> int list" where
  "py_range n = map int [0..<nat n]"

definition has_key :: "int \<Rightarrow> dict \<Rightarrow> bool" where
  "has_key r d = (r \<in> set (map fst d))"

definition get_item :: "dict \<Rightarrow> int \<Rightarrow> int" where
  "get_item d r = the (map_of d r)"

text \<open>The test that the source writes inline wherever two queens are compared:
  \<^verbatim>\<open>c1 == c2 or abs(r1 - r2) == abs(c1 - c2)\<close>.\<close>

definition attacks :: "int \<Rightarrow> int \<Rightarrow> int \<Rightarrow> int \<Rightarrow> bool" where
  "attacks r1 c1 r2 c2 = (c1 = c2 \<or> \<bar>r1 - r2\<bar> = \<bar>c1 - c2\<bar>)"

subsection \<open>\<^verbatim>\<open>__init__\<close> and \<^verbatim>\<open>initialize_domains\<close>\<close>

definition init_domains :: "int \<Rightarrow> dict \<Rightarrow> domains" where
  "init_domains n P =
     (\<lambda>row. if row \<in> set (py_range n)
            then (if has_key row P then [get_item P row] else py_range n)
            else [])"

text \<open>The three guarded removals of a column and its two diagonal neighbours.\<close>

definition remove_conflicts :: "int \<Rightarrow> int \<Rightarrow> int \<Rightarrow> int list \<Rightarrow> int list" where
  "remove_conflicts n col diag_diff xs =
     (let xs1 = (if col \<in> set xs then removeAll col xs else xs);
          xs2 = (if col + diag_diff < n \<and> col + diag_diff \<in> set xs1
                 then removeAll (col + diag_diff) xs1 else xs1);
          xs3 = (if col - diag_diff \<ge> 0 \<and> col - diag_diff \<in> set xs2
                 then removeAll (col - diag_diff) xs2 else xs2)
      in xs3)"

text \<open>\<^verbatim>\<open>initialize_domains\<close>: for every fixed queen \<open>(row, col)\<close> and every other row
  that is not fixed, the three removals.\<close>

definition prune_row :: "int \<Rightarrow> dict \<Rightarrow> int \<Rightarrow> int \<Rightarrow> int \<Rightarrow> domains \<Rightarrow> domains" where
  "prune_row n P row col other_row d =
     (if other_row \<noteq> row \<and> \<not> has_key other_row P
      then d(other_row := remove_conflicts n col \<bar>other_row - row\<bar> (d other_row))
      else d)"

definition prune_for :: "int \<Rightarrow> dict \<Rightarrow> int \<times> int \<Rightarrow> domains \<Rightarrow> domains" where
  "prune_for n P entry d = fold (prune_row n P (fst entry) (snd entry)) (py_range n) d"

definition initialize_domains :: "int \<Rightarrow> dict \<Rightarrow> domains \<Rightarrow> domains" where
  "initialize_domains n P doms = fold (prune_for n P) P doms"

definition csp_init :: "int \<Rightarrow> dict \<Rightarrow> domains" where
  "csp_init n P = initialize_domains n P (init_domains n P)"

subsection \<open>\<^verbatim>\<open>revise\<close> and \<^verbatim>\<open>ac3\<close>\<close>

text \<open>One guarded removal of the singleton branch:
  \<^verbatim>\<open>if guard and col in self.domains[row_i]: remove it; revised = True\<close>.\<close>

definition discard_col :: "bool \<Rightarrow> int \<Rightarrow> int \<Rightarrow> bool \<times> domains \<Rightarrow> bool \<times> domains" where
  "discard_col guard row_i col st =
     (case st of (revised, d) \<Rightarrow>
        if guard \<and> col \<in> set (d row_i)
        then (True, d(row_i := removeAll col (d row_i)))
        else (revised, d))"

definition revise_singleton :: "int \<Rightarrow> int \<Rightarrow> int \<Rightarrow> domains \<Rightarrow> bool \<times> domains" where
  "revise_singleton n row_i row_j doms =
     (let col_j = hd (doms row_j);
          st1 = discard_col True row_i col_j (False, doms);
          diag_diff = \<bar>row_i - row_j\<bar>;
          st2 = discard_col (col_j + diag_diff < n) row_i (col_j + diag_diff) st1;
          st3 = discard_col (col_j - diag_diff \<ge> 0) row_i (col_j - diag_diff) st2
      in st3)"

text \<open>The body of the general branch for one value \<open>col_i\<close> of the snapshot
  \<^verbatim>\<open>list(self.domains[row_i])\<close>.\<close>

definition revise_value :: "int \<Rightarrow> int \<Rightarrow> int \<Rightarrow> bool \<times> domains \<Rightarrow> bool \<times> domains" where
  "revise_value row_i row_j col_i st =
     (case st of (revised, d) \<Rightarrow>
        if list_all (\<lambda>col_j. \<not> (col_i \<noteq> col_j \<and> \<bar>row_i - row_j\<bar> \<noteq> \<bar>col_i - col_j\<bar>)) (d row_j)
        then (True, d(row_i := removeAll col_i (d row_i)))
        else (revised, d))"

definition revise_general :: "int \<Rightarrow> int \<Rightarrow> domains \<Rightarrow> bool \<times> domains" where
  "revise_general row_i row_j doms = fold (revise_value row_i row_j) (doms row_i) (False, doms)"

definition revise :: "int \<Rightarrow> int \<Rightarrow> int \<Rightarrow> domains \<Rightarrow> bool \<times> domains" where
  "revise n row_i row_j doms =
     (if length (doms row_j) = 1 then revise_singleton n row_i row_j doms
      else revise_general row_i row_j doms)"

text \<open>The initial queue: for every row \<open>i\<close>, in order, the arcs \<open>(i, j)\<close> with \<open>i \<noteq> j\<close>.\<close>

definition arcs_from :: "int \<Rightarrow> int \<Rightarrow> (int \<times> int) list" where
  "arcs_from n i = map (\<lambda>j. (i, j)) (filter (\<lambda>j. i \<noteq> j) (py_range n))"

definition all_arcs :: "int \<Rightarrow> (int \<times> int) list" where
  "all_arcs n = concat (map (arcs_from n) (py_range n))"

definition neighbours :: "int \<Rightarrow> int \<Rightarrow> int \<Rightarrow> (int \<times> int) list" where
  "neighbours n row_i row_j =
     map (\<lambda>k. (k, row_i)) (filter (\<lambda>k. k \<noteq> row_i \<and> k \<noteq> row_j) (py_range n))"


subsection \<open>Facts about \<^const>\<open>revise\<close> needed for the termination of \<^verbatim>\<open>ac3\<close>\<close>

lemma length_removeAll_le: "length (removeAll x xs) \<le> length xs"
  by (simp add: removeAll_filter_not_eq)

lemma length_removeAll_less: "x \<in> set xs \<Longrightarrow> length (removeAll x xs) < length xs"
  by (simp add: removeAll_filter_not_eq length_filter_less)

lemma revise_value_pair:
  "revise_value row_i row_j col_i (revised, d) =
     (if list_all (\<lambda>col_j. \<not> (col_i \<noteq> col_j \<and> \<bar>row_i - row_j\<bar> \<noteq> \<bar>col_i - col_j\<bar>)) (d row_j)
      then (True, d(row_i := removeAll col_i (d row_i)))
      else (revised, d))"
  by (simp add: revise_value_def)

lemma revise_general_fold_frame:
  assumes "fold (revise_value row_i row_j) xs (b, d0) = (b', d')"
  shows "(b \<longrightarrow> b') \<and> length (d' row_i) \<le> length (d0 row_i) \<and> set (d' row_i) \<subseteq> set (d0 row_i)
         \<and> (\<forall>r. r \<noteq> row_i \<longrightarrow> d' r = d0 r)"
  using assms
proof (induction xs arbitrary: b d0)
  case Nil
  then show ?case by simp
next
  case (Cons x xs)
  obtain b1 d1 where st: "revise_value row_i row_j x (b, d0) = (b1, d1)"
    by (cases "revise_value row_i row_j x (b, d0)")
  then have one: "(b \<longrightarrow> b1) \<and> length (d1 row_i) \<le> length (d0 row_i)
      \<and> set (d1 row_i) \<subseteq> set (d0 row_i) \<and> (\<forall>r. r \<noteq> row_i \<longrightarrow> d1 r = d0 r)"
    by (auto simp: revise_value_pair length_removeAll_le split: if_splits)
  from Cons.prems st have "fold (revise_value row_i row_j) xs (b1, d1) = (b', d')" by simp
  from Cons.IH [OF this] one show ?case by auto
qed

lemma revise_general_fold_flag:
  assumes "fold (revise_value row_i row_j) xs (False, d0) = (b', d')"
    and "set xs \<subseteq> set (d0 row_i)"
  shows "if b' then length (d' row_i) < length (d0 row_i) else d' = d0"
  using assms
proof (induction xs)
  case Nil
  then show ?case by simp
next
  case (Cons x xs)
  show ?case
  proof (cases "list_all (\<lambda>col_j. \<not> (x \<noteq> col_j \<and> \<bar>row_i - row_j\<bar> \<noteq> \<bar>x - col_j\<bar>)) (d0 row_j)")
    case True
    with Cons.prems have f:
      "fold (revise_value row_i row_j) xs (True, d0(row_i := removeAll x (d0 row_i))) = (b', d')"
      by (simp add: revise_value_pair)
    from revise_general_fold_frame [OF f]
    have "b'" and "length (d' row_i) \<le> length (removeAll x (d0 row_i))" by auto
    moreover have "length (removeAll x (d0 row_i)) < length (d0 row_i)"
      using Cons.prems(2) by (simp add: length_removeAll_less)
    ultimately show ?thesis by simp
  next
    case False
    with Cons.prems Cons.IH show ?thesis by (simp add: revise_value_pair)
  qed
qed

lemma revise_general_frame:
  assumes "revise_general row_i row_j doms = (b, d')"
  shows "length (d' row_i) \<le> length (doms row_i)" and "set (d' row_i) \<subseteq> set (doms row_i)"
    and "r \<noteq> row_i \<Longrightarrow> d' r = doms r"
    and "if b then length (d' row_i) < length (doms row_i) else d' = doms"
  using revise_general_fold_frame [OF assms [unfolded revise_general_def]]
    revise_general_fold_flag [OF assms [unfolded revise_general_def]]
  by auto

text \<open>What a sequence of removals from row \<open>row_i\<close> keeps true of the flag and the
  domain map, relative to the map \<open>doms\<close> it started from.\<close>

definition shrinks :: "int \<Rightarrow> domains \<Rightarrow> bool \<times> domains \<Rightarrow> bool" where
  "shrinks row_i doms st =
     (case st of (b, d) \<Rightarrow>
        (if b then length (d row_i) < length (doms row_i) else d = doms)
        \<and> length (d row_i) \<le> length (doms row_i)
        \<and> set (d row_i) \<subseteq> set (doms row_i)
        \<and> (\<forall>r. r \<noteq> row_i \<longrightarrow> d r = doms r))"

lemma discard_col_pair:
  "discard_col guard row_i col (revised, d) =
     (if guard \<and> col \<in> set (d row_i)
      then (True, d(row_i := removeAll col (d row_i)))
      else (revised, d))"
  by (simp add: discard_col_def)

lemma shrinks_discard_col:
  assumes "shrinks row_i doms st"
  shows "shrinks row_i doms (discard_col guard row_i col st)"
proof (cases st)
  case (Pair b d)
  show ?thesis
  proof (cases "guard \<and> col \<in> set (d row_i)")
    case True
    then have "length (removeAll col (d row_i)) < length (d row_i)"
      by (simp add: length_removeAll_less)
    moreover have "length (d row_i) \<le> length (doms row_i)" "set (d row_i) \<subseteq> set (doms row_i)"
      "\<forall>r. r \<noteq> row_i \<longrightarrow> d r = doms r"
      using assms Pair by (simp_all add: shrinks_def)
    ultimately show ?thesis
      using True Pair by (auto simp: shrinks_def discard_col_pair)
  next
    case False
    then have "discard_col guard row_i col st = st"
      using Pair by (auto simp: discard_col_pair)
    then show ?thesis using assms by simp
  qed
qed

lemma revise_singleton_shrinks: "shrinks row_i doms (revise_singleton n row_i row_j doms)"
proof -
  have "shrinks row_i doms (False, doms)" by (simp add: shrinks_def)
  then show ?thesis
    unfolding revise_singleton_def Let_def by (intro shrinks_discard_col)
qed

lemma revise_singleton_frame:
  assumes "revise_singleton n row_i row_j doms = (b, d')"
  shows "length (d' row_i) \<le> length (doms row_i)" and "set (d' row_i) \<subseteq> set (doms row_i)"
    and "r \<noteq> row_i \<Longrightarrow> d' r = doms r"
    and "if b then length (d' row_i) < length (doms row_i) else d' = doms"
  using revise_singleton_shrinks [of row_i doms n row_j] assms
  by (simp_all add: shrinks_def)

lemma revise_frame:
  assumes "revise n row_i row_j doms = (b, d')"
  shows "length (d' row_i) \<le> length (doms row_i)" and "set (d' row_i) \<subseteq> set (doms row_i)"
    and "r \<noteq> row_i \<Longrightarrow> d' r = doms r"
    and "if b then length (d' row_i) < length (doms row_i) else d' = doms"
  using assms revise_general_frame [of row_i row_j doms b d']
    revise_singleton_frame [of n row_i row_j doms b d']
  by (auto simp: revise_def split: if_splits)

text \<open>The work-queue loop of \<^verbatim>\<open>ac3\<close>. Its measure: the sizes of the domains of the rows
  that the queue or the board mention, then the length of the queue.\<close>

definition arc_rows :: "int \<Rightarrow> (int \<times> int) list \<Rightarrow> int set" where
  "arc_rows n queue = fst ` set queue \<union> set (py_range n)"

definition total_size :: "int \<Rightarrow> (int \<times> int) list \<Rightarrow> domains \<Rightarrow> nat" where
  "total_size n queue doms = (\<Sum>r \<in> arc_rows n queue. length (doms r))"

lemma finite_arc_rows: "finite (arc_rows n queue)"
  by (simp add: arc_rows_def)

lemma arc_rows_neighbours: "arc_rows n (queue @ neighbours n i j) \<subseteq> arc_rows n ((i, j) # queue)"
  by (auto simp: arc_rows_def neighbours_def)

lemma arc_rows_tail: "arc_rows n queue \<subseteq> arc_rows n (a # queue)"
  by (auto simp: arc_rows_def)

lemma total_size_revised:
  assumes "revise n i j doms = (True, d')"
  shows "total_size n (queue @ neighbours n i j) d' < total_size n ((i, j) # queue) doms"
proof -
  let ?S = "arc_rows n ((i, j) # queue)"
  let ?S' = "arc_rows n (queue @ neighbours n i j)"
  have i: "i \<in> ?S" by (simp add: arc_rows_def)
  have lt: "length (d' i) < length (doms i)"
    using revise_frame(4) [OF assms] by simp
  have le: "\<And>r. length (d' r) \<le> length (doms r)"
    using revise_frame(1,3) [OF assms] by (metis order_refl)
  have "(\<Sum>r \<in> ?S'. length (d' r)) \<le> (\<Sum>r \<in> ?S. length (d' r))"
    by (rule sum_mono2) (auto simp: finite_arc_rows arc_rows_neighbours [THEN subsetD])
  also have "\<dots> < (\<Sum>r \<in> ?S. length (doms r))"
    by (rule sum_strict_mono_ex1) (use i lt le in \<open>auto simp: finite_arc_rows\<close>)
  finally show ?thesis by (simp add: total_size_def)
qed

lemma total_size_tail: "total_size n queue doms \<le> total_size n (a # queue) doms"
  unfolding total_size_def
  by (rule sum_mono2) (auto simp: finite_arc_rows arc_rows_tail [THEN subsetD])

function ac3_loop :: "int \<Rightarrow> (int \<times> int) list \<Rightarrow> domains \<Rightarrow> bool \<times> domains" where
  "ac3_loop n [] doms = (True, doms)"
| "ac3_loop n ((row_i, row_j) # queue) doms =
     (let (revised, doms') = revise n row_i row_j doms
      in if revised
         then (if doms' row_i = [] then (False, doms')
               else ac3_loop n (queue @ neighbours n row_i row_j) doms')
         else ac3_loop n queue doms')"
  by pat_completeness auto
termination
proof (relation "inv_image (less_than <*lex*> less_than)
                   (\<lambda>(n, queue, doms). (total_size n queue doms, length queue))")
  show "wf (inv_image (less_than <*lex*> less_than)
                   (\<lambda>(n, queue, doms). (total_size n queue doms, length queue)))"
    by (intro wf_inv_image wf_lex_prod wf_less_than)
next
  fix n row_i row_j queue doms x xa y
  assume "x = revise n row_i row_j doms" "(xa, y) = x" "xa"
  then have "revise n row_i row_j doms = (True, y)" by simp
  from total_size_revised [OF this]
  show "((n, queue @ neighbours n row_i row_j, y), n, (row_i, row_j) # queue, doms)
        \<in> inv_image (less_than <*lex*> less_than)
             (\<lambda>(n, queue, doms). (total_size n queue doms, length queue))"
    by simp
next
  fix n row_i row_j queue doms x xa y
  assume "x = revise n row_i row_j doms" "(xa, y) = x" "\<not> xa"
  then have "revise n row_i row_j doms = (False, y)" by simp
  from revise_frame(4) [OF this] have "y = doms" by simp
  then show "((n, queue, y), n, (row_i, row_j) # queue, doms)
        \<in> inv_image (less_than <*lex*> less_than)
             (\<lambda>(n, queue, doms). (total_size n queue doms, length queue))"
    using total_size_tail [of n queue doms "(row_i, row_j)"] by auto
qed

definition ac3 :: "int \<Rightarrow> domains \<Rightarrow> bool \<times> domains" where
  "ac3 n doms = ac3_loop n (all_arcs n) doms"

text \<open>The same loop written as the \<^verbatim>\<open>while queue:\<close> of the source, where not
  returning is the value \<^const>\<open>None\<close>.\<close>

partial_function (option) ac3_while :: "int \<Rightarrow> (int \<times> int) list \<Rightarrow> domains \<Rightarrow> (bool \<times> domains) option" where
  "ac3_while n queue doms =
     (case queue of
        [] \<Rightarrow> Some (True, doms)
      | (row_i, row_j) # rest \<Rightarrow>
          (let (revised, doms') = revise n row_i row_j doms
           in if revised
              then (if doms' row_i = [] then Some (False, doms')
                    else ac3_while n (rest @ neighbours n row_i row_j) doms')
              else ac3_while n rest doms'))"

lemma ac3_while_total: "ac3_while n queue doms = Some (ac3_loop n queue doms)"
proof (induction n queue doms rule: ac3_loop.induct)
  case (1 n doms)
  show ?case by (subst ac3_while.simps) simp
next
  case (2 n row_i row_j queue doms)
  show ?case
    by (subst ac3_while.simps) (use 2 in \<open>auto split: prod.splits\<close>)
qed

subsection \<open>Ordering heuristics\<close>

text \<open>\<^verbatim>\<open>min(unassigned, key=...)\<close> returns the first row with the smallest domain and
  raises \<^verbatim>\<open>ValueError\<close> on an empty sequence, which is \<^const>\<open>None\<close> here.\<close>

definition select_unassigned_variable :: "int \<Rightarrow> dict \<Rightarrow> domains \<Rightarrow> int option" where
  "select_unassigned_variable n assignment doms =
     (case filter (\<lambda>row. \<not> has_key row assignment) (py_range n) of
        [] \<Rightarrow> None
      | r # rs \<Rightarrow>
          Some (fold (\<lambda>row best. if length (doms row) < length (doms best) then row else best) rs r))"

text \<open>The number of values of \<open>other_row\<close>'s domain that a queen at \<open>(row, col)\<close>
  would eliminate, the total over the unassigned rows, and the pair that
  \<^verbatim>\<open>value_conflicts\<close> collects for \<open>col\<close>.\<close>

definition lcv_row :: "int \<Rightarrow> int \<Rightarrow> dict \<Rightarrow> domains \<Rightarrow> int \<Rightarrow> nat" where
  "lcv_row row col assignment doms other_row =
     (if other_row \<noteq> row \<and> \<not> has_key other_row assignment
      then length (filter (\<lambda>other_col. attacks row col other_row other_col) (doms other_row))
      else 0)"

definition lcv_conflicts :: "int \<Rightarrow> int \<Rightarrow> int \<Rightarrow> dict \<Rightarrow> domains \<Rightarrow> nat" where
  "lcv_conflicts n row col assignment doms =
     sum_list (map (lcv_row row col assignment doms) (py_range n))"

definition lcv_pair :: "int \<Rightarrow> int \<Rightarrow> dict \<Rightarrow> domains \<Rightarrow> int \<Rightarrow> int \<times> nat" where
  "lcv_pair n row assignment doms col = (col, lcv_conflicts n row col assignment doms)"

definition order_domain_values :: "int \<Rightarrow> int \<Rightarrow> dict \<Rightarrow> domains \<Rightarrow> int list" where
  "order_domain_values n row assignment doms =
     map fst (sort_key snd (map (lcv_pair n row assignment doms) (doms row)))"

definition is_consistent :: "int \<Rightarrow> int \<Rightarrow> dict \<Rightarrow> bool" where
  "is_consistent row col assignment = list_all (\<lambda>(r, c). \<not> attacks r c row col) assignment"

subsection \<open>Forward checking and restoration\<close>

type_synonym pruned = "(int \<times> int list) list"

definition pruned_extend :: "int \<Rightarrow> int list \<Rightarrow> pruned \<Rightarrow> pruned" where
  "pruned_extend r vals p =
     (case map_of p r of
        None \<Rightarrow> p @ [(r, vals)]
      | Some old \<Rightarrow> AList.update r (old @ vals) p)"

fun forward_check_rows ::
  "int list \<Rightarrow> int \<Rightarrow> int \<Rightarrow> dict \<Rightarrow> domains \<Rightarrow> pruned \<Rightarrow> bool \<times> domains \<times> pruned" where
  "forward_check_rows [] row col assignment doms pruned = (True, doms, pruned)"
| "forward_check_rows (other_row # rest) row col assignment doms pruned =
     (if other_row \<noteq> row \<and> \<not> has_key other_row assignment
      then (let pruned_vals = filter (\<lambda>other_col. attacks row col other_row other_col) (doms other_row);
                doms' = doms(other_row :=
                          filter (\<lambda>other_col. \<not> attacks row col other_row other_col) (doms other_row));
                pruned' = (if pruned_vals \<noteq> [] then pruned_extend other_row pruned_vals pruned
                           else pruned)
            in if doms' other_row = [] then (False, doms', pruned')
               else forward_check_rows rest row col assignment doms' pruned')
      else forward_check_rows rest row col assignment doms pruned)"

definition forward_check :: "int \<Rightarrow> int \<Rightarrow> int \<Rightarrow> dict \<Rightarrow> domains \<Rightarrow> pruned \<Rightarrow> bool \<times> domains \<times> pruned" where
  "forward_check n row col assignment doms pruned =
     forward_check_rows (py_range n) row col assignment doms pruned"

text \<open>
  \<^verbatim>\<open>set.update(cols)\<close>: each column is added unless present. The model keeps the
  list in increasing order. Python leaves the iteration order of a set open, and CPython,
  which iterates in the order of the slots of its hash table, may put a column that is
  added back after a removal in a later free slot, so that after a restoration it can
  iterate a domain in another order than the increasing one. The domain holds the same
  set of columns either way; the order only decides which of several equally ranked
  candidates \<^verbatim>\<open>order_domain_values\<close> puts first. The statements below about restored
  domains compare them as sets of columns.
\<close>

definition set_update :: "int list \<Rightarrow> int list \<Rightarrow> int list" where
  "set_update cols xs = fold (\<lambda>c s. if c \<in> set s then s else insort c s) cols xs"

definition restore_row :: "int \<times> int list \<Rightarrow> domains \<Rightarrow> domains" where
  "restore_row entry d = d(fst entry := set_update (snd entry) (d (fst entry)))"

definition restore :: "pruned \<Rightarrow> domains \<Rightarrow> domains" where
  "restore local_pruned doms = fold restore_row local_pruned doms"

subsection \<open>Backtracking search\<close>

text \<open>What a search returns: a dictionary, \<^verbatim>\<open>None\<close>, or the \<^verbatim>\<open>ValueError\<close> that
  \<^verbatim>\<open>min\<close> raises and nothing below \<^verbatim>\<open>main\<close> catches.

  \<^verbatim>\<open>backtrack\<close> mutates \<^verbatim>\<open>self.domains\<close>, so the model takes the domain map and returns
  the new one. The dictionary \<^verbatim>\<open>assignment\<close> is passed by value: a call that returns
  \<^verbatim>\<open>None\<close> has deleted every row it committed, so after \<^verbatim>\<open>del assignment[row]\<close> the
  caller holds the dictionary it had before the candidate. The parameter
  \<^verbatim>\<open>pruned_domains\<close> is never read and is left out. \<^verbatim>\<open>try_values\<close> is the \<^verbatim>\<open>for col in ...\<close>
  loop over the candidates that are left.\<close>

datatype result = Solution dict | NoSolution | ValueError

definition unassigned_count :: "int \<Rightarrow> dict \<Rightarrow> nat" where
  "unassigned_count n assignment = length (filter (\<lambda>row. \<not> has_key row assignment) (py_range n))"

text \<open>Termination: every commit assigns a row of the board that was free.\<close>

lemma has_key_update: "has_key r (AList.update row col assignment) = (r = row \<or> has_key r assignment)"
  by (auto simp: has_key_def dom_update)

lemma fold_min_in: "fold (\<lambda>row best. if length (doms row) < length (doms best) then row else best) rs r
                     \<in> set (r # rs)"
  by (induction rs arbitrary: r) (auto split: if_splits)

lemma select_unassigned_variable_Some:
  assumes "select_unassigned_variable n assignment doms = Some row"
  shows "row \<in> set (py_range n)" and "\<not> has_key row assignment"
proof -
  from assms obtain r rs where f: "filter (\<lambda>row. \<not> has_key row assignment) (py_range n) = r # rs"
    and row: "row = fold (\<lambda>row best. if length (doms row) < length (doms best) then row else best) rs r"
    by (auto simp: select_unassigned_variable_def split: list.splits)
  have "row \<in> set (filter (\<lambda>row. \<not> has_key row assignment) (py_range n))"
    unfolding f row by (rule fold_min_in)
  then show "row \<in> set (py_range n)" and "\<not> has_key row assignment" by auto
qed

lemma unassigned_count_update_less:
  assumes "row \<in> set (py_range n)" and "\<not> has_key row assignment"
  shows "unassigned_count n (AList.update row col assignment) < unassigned_count n assignment"
proof -
  have "filter (\<lambda>r. \<not> has_key r (AList.update row col assignment)) (py_range n)
        = filter (\<lambda>r. r \<noteq> row) (filter (\<lambda>r. \<not> has_key r assignment) (py_range n))"
    by (auto simp: has_key_update intro: filter_cong)
  moreover have "row \<in> set (filter (\<lambda>r. \<not> has_key r assignment) (py_range n))"
    using assms by simp
  ultimately show ?thesis
    unfolding unassigned_count_def
    by (metis (mono_tags, lifting) length_filter_less)
qed

lemma unassigned_count_update_col:
  "unassigned_count n (AList.update row col assignment) = unassigned_count n (AList.update row col' assignment)"
  by (simp add: unassigned_count_def has_key_update)

function backtrack :: "int \<Rightarrow> dict \<Rightarrow> domains \<Rightarrow> result \<times> domains"
  and try_values :: "int \<Rightarrow> int \<Rightarrow> int list \<Rightarrow> dict \<Rightarrow> domains \<Rightarrow> result \<times> domains" where
  "backtrack n assignment doms =
     (if int (length assignment) = n then (Solution assignment, doms)
      else (case select_unassigned_variable n assignment doms of
              None \<Rightarrow> (ValueError, doms)
            | Some row \<Rightarrow> try_values n row (order_domain_values n row assignment doms) assignment doms))"
| "try_values n row [] assignment doms = (NoSolution, doms)"
| "try_values n row (col # cols) assignment doms =
     (if is_consistent row col assignment
      then (case forward_check n row col (AList.update row col assignment) doms [] of
              (True, doms1, local_pruned) \<Rightarrow>
                (case backtrack n (AList.update row col assignment) doms1 of
                   (NoSolution, doms2) \<Rightarrow> try_values n row cols assignment (restore local_pruned doms2)
                 | (res, doms2) \<Rightarrow> (res, doms2))
            | (False, doms1, local_pruned) \<Rightarrow>
                try_values n row cols assignment (restore local_pruned doms1))
      else try_values n row cols assignment doms)"
  by pat_completeness auto


termination
proof (relation "inv_image (less_than <*lex*> less_than)
        (\<lambda>x. case x of
               Inl (n, assignment, doms) \<Rightarrow> (2 * unassigned_count n assignment, 0)
             | Inr (n, row, cols, assignment, doms) \<Rightarrow>
                 (2 * unassigned_count n (AList.update row 0 assignment) + 1, length cols))",
       goal_cases)
  case 1
  show ?case by (intro wf_inv_image wf_lex_prod wf_less_than)
next
  case (2 n assignment doms row)
  from select_unassigned_variable_Some [OF 2(2)]
  have "unassigned_count n (AList.update row 0 assignment) < unassigned_count n assignment"
    by (rule unassigned_count_update_less)
  then show ?case by simp
next
  case (3 n row col cols assignment doms)
  show ?case
    using unassigned_count_update_col [of n row col assignment 0] by simp
next
  case 4
  then show ?case by simp
next
  case 5
  then show ?case by simp
next
  case 6
  then show ?case by simp
qed


definition backtrack_search :: "int \<Rightarrow> dict \<Rightarrow> domains \<Rightarrow> result" where
  "backtrack_search n P doms =
     (case ac3 n doms of
        (False, doms') \<Rightarrow> NoSolution
      | (True, doms') \<Rightarrow> fst (backtrack n P doms'))"

subsection \<open>Min-conflicts local search\<close>

text \<open>
  The generator behind \<^verbatim>\<open>random.choice\<close> and \<^verbatim>\<open>random.randint\<close> is a parameter: the
  \<open>k\<close>-th draw from a sequence \<open>xs\<close> returns the element at index
  \<open>rnd k xs mod length xs\<close>, so every outcome of a draw is the outcome for some \<open>rnd\<close>.
  The source draws from non-empty sequences only.
\<close>

type_synonym rng = "nat \<Rightarrow> int list \<Rightarrow> nat"

definition choice :: "rng \<Rightarrow> nat \<Rightarrow> int list \<Rightarrow> int" where
  "choice rnd k xs = xs ! (rnd k xs mod length xs)"

definition count_conflicts :: "int \<Rightarrow> int \<Rightarrow> dict \<Rightarrow> nat" where
  "count_conflicts row col assignment =
     length (filter (\<lambda>(r, c). r \<noteq> row \<and> (c = col \<or> \<bar>r - row\<bar> = \<bar>c - col\<bar>)) assignment)"

text \<open>The conflicts of a queen at \<open>(row, col)\<close> as the seeding counts them, and as the
  repair loop counts them after writing \<open>col\<close> into the dictionary for the count.\<close>

definition seed_conflicts :: "dict \<Rightarrow> int \<Rightarrow> int \<Rightarrow> nat" where
  "seed_conflicts assignment row col = count_conflicts row col assignment"

definition moved_conflicts :: "dict \<Rightarrow> int \<Rightarrow> int \<Rightarrow> nat" where
  "moved_conflicts assignment row col = count_conflicts row col (AList.update row col assignment)"

text \<open>The scan that keeps the columns with the fewest conflicts; \<^const>\<open>None\<close> is
  \<^verbatim>\<open>float('inf')\<close>.\<close>

definition best_step :: "(int \<Rightarrow> nat) \<Rightarrow> int \<Rightarrow> nat option \<times> int list \<Rightarrow> nat option \<times> int list" where
  "best_step conflicts_of col st =
     (case st of (min_conflicts, best_cols) \<Rightarrow>
        let conflicts = conflicts_of col
        in (case min_conflicts of
              None \<Rightarrow> (Some conflicts, [col])
            | Some m \<Rightarrow>
                if conflicts < m then (Some conflicts, [col])
                else if conflicts = m then (Some m, best_cols @ [col])
                else (Some m, best_cols)))"

definition best_columns :: "(int \<Rightarrow> nat) \<Rightarrow> int list \<Rightarrow> int list" where
  "best_columns conflicts_of cols = snd (fold (best_step conflicts_of) cols (None, []))"

definition seed_row :: "int \<Rightarrow> domains \<Rightarrow> rng \<Rightarrow> int \<Rightarrow> dict \<times> nat \<Rightarrow> dict \<times> nat" where
  "seed_row n doms rnd row st =
     (case st of (assignment, k) \<Rightarrow>
        if \<not> has_key row assignment
        then (let cols = doms row
              in if cols \<noteq> []
                 then (AList.update row
                         (choice rnd k (best_columns (seed_conflicts assignment row) cols))
                         assignment, Suc k)
                 else (AList.update row (choice rnd k (py_range n)) assignment, Suc k))
        else (assignment, k))"

text \<open>A row that the repair loop collects: not fixed, and in conflict.\<close>

definition is_conflicted :: "dict \<Rightarrow> dict \<Rightarrow> int \<Rightarrow> bool" where
  "is_conflicted P assignment row =
     (\<not> has_key row P \<and> count_conflicts row (get_item assignment row) assignment > 0)"

fun repair :: "nat \<Rightarrow> int \<Rightarrow> dict \<Rightarrow> rng \<Rightarrow> dict \<Rightarrow> nat \<Rightarrow> result" where
  "repair 0 n P rnd assignment k = NoSolution"
| "repair (Suc steps) n P rnd assignment k =
     (let conflicted_rows = filter (is_conflicted P assignment) (py_range n)
      in if conflicted_rows = [] then Solution assignment
         else (let row = choice rnd k conflicted_rows;
                   best_cols = best_columns (moved_conflicts assignment row) (py_range n)
               in repair steps n P rnd
                    (AList.update row (choice rnd (Suc k) best_cols) assignment) (k + 2)))"

definition min_conflicts :: "int \<Rightarrow> dict \<Rightarrow> domains \<Rightarrow> rng \<Rightarrow> int \<Rightarrow> result" where
  "min_conflicts n P doms rnd max_steps =
     (case fold (seed_row n doms rnd) (py_range n) (P, 0) of
        (assignment, k) \<Rightarrow> repair (nat max_steps) n P rnd assignment k)"

subsection \<open>\<^verbatim>\<open>solve\<close> and \<^verbatim>\<open>read_input\<close>\<close>

definition solve :: "int \<Rightarrow> dict \<Rightarrow> rng \<Rightarrow> result" where
  "solve n P rnd =
     (let doms = csp_init n P
      in if n \<le> 100 then backtrack_search n P doms
         else min_conflicts n P doms rnd (n * 100))"

text \<open>\<^verbatim>\<open>read_input\<close> on the non-empty stripped lines of the file, each given as what
  \<^verbatim>\<open>int(line)\<close> returns, \<^const>\<open>None\<close> where it raises \<^verbatim>\<open>ValueError\<close>.\<close>

definition read_input :: "int option list \<Rightarrow> dict \<times> int" where
  "read_input lines =
     (let n = int (length lines)
      in (fold (\<lambda>(row, line) partial_assignment.
                  case line of
                    Some col \<Rightarrow> if 0 \<le> col \<and> col < n
                                then AList.update row col partial_assignment
                                else partial_assignment
                  | None \<Rightarrow> partial_assignment)
               (zip (map int [0..<length lines]) lines) [],
          n))"

section \<open>Properties\<close>

text \<open>A generator that always draws index 0, for closed instances.\<close>

definition first_choice :: rng where
  "first_choice k xs = 0"

subsection \<open>Boards of size 1, 2 and 3\<close>

text \<open>
  Claim C2, as stated: for each of \<open>n = 1\<close>, \<open>n = 2\<close> and \<open>n = 3\<close>, \<^verbatim>\<open>solve\<close> with no
  partial assignment reports infeasible. On the board of size 1 this fails: the search
  commits row 0 to column 0 and returns that dictionary.
\<close>

theorem solve_one_not_infeasible: "solve 1 [] first_choice \<noteq> NoSolution"
  by code_simp

text \<open>
  Claim C2, amended: with no partial assignment, \<^verbatim>\<open>solve\<close> reports infeasible for
  \<open>n = 2\<close> and \<open>n = 3\<close>, and for \<open>n = 1\<close> it returns the assignment of row 0 to column 0.
\<close>

theorem solve_tiny_boards:
  "solve 1 [] rnd = Solution [(0, 0)] \<and> solve 2 [] rnd = NoSolution \<and> solve 3 [] rnd = NoSolution"
  by code_simp

subsection \<open>The singleton shortcut of \<^verbatim>\<open>revise\<close>\<close>

lemma revise_general_fold_singleton:
  assumes "row_i \<noteq> row_j" and "d0 row_j = [c]"
  shows "fold (revise_value row_i row_j) xs (b, d0)
         = (b \<or> (\<exists>x \<in> set xs. attacks row_i x row_j c),
            d0(row_i := filter (\<lambda>v. \<not> (v \<in> set xs \<and> attacks row_i v row_j c)) (d0 row_i)))"
  using assms(2)
proof (induction xs arbitrary: b d0)
  case Nil
  then show ?case by simp
next
  case (Cons x xs)
  show ?case
  proof (cases "attacks row_i x row_j c")
    case True
    let ?d1 = "d0(row_i := removeAll x (d0 row_i))"
    have d1: "?d1 row_j = [c]" using Cons.prems assms(1) by simp
    have step: "revise_value row_i row_j x (b, d0) = (True, ?d1)"
      using True Cons.prems by (simp add: revise_value_pair attacks_def)
    have flt: "filter (\<lambda>v. \<not> (v \<in> set xs \<and> attacks row_i v row_j c)) (removeAll x (d0 row_i))
          = filter (\<lambda>v. \<not> (v \<in> set (x # xs) \<and> attacks row_i v row_j c)) (d0 row_i)"
      using True by (auto simp: removeAll_filter_not_eq intro: filter_cong)
    have "fold (revise_value row_i row_j) (x # xs) (b, d0)
          = fold (revise_value row_i row_j) xs (True, ?d1)"
      by (simp add: step)
    also have "\<dots> = (True \<or> (\<exists>x \<in> set xs. attacks row_i x row_j c),
          ?d1(row_i := filter (\<lambda>v. \<not> (v \<in> set xs \<and> attacks row_i v row_j c)) (?d1 row_i)))"
      by (rule Cons.IH) (rule d1)
    also have "\<dots> = (True, d0(row_i := filter (\<lambda>v. \<not> (v \<in> set (x # xs) \<and> attacks row_i v row_j c)) (d0 row_i)))"
      using flt by simp
    finally have fin: "fold (revise_value row_i row_j) (x # xs) (b, d0)
        = (True, d0(row_i := filter (\<lambda>v. \<not> (v \<in> set (x # xs) \<and> attacks row_i v row_j c)) (d0 row_i)))" .
    have flag: "(b \<or> (\<exists>y \<in> set (x # xs). attacks row_i y row_j c)) = True"
      using True by simp
    show ?thesis unfolding flag by (rule fin)
  next
    case False
    have step: "revise_value row_i row_j x (b, d0) = (b, d0)"
      using False Cons.prems by (simp add: revise_value_pair attacks_def)
    have flt: "filter (\<lambda>v. \<not> (v \<in> set xs \<and> attacks row_i v row_j c)) (d0 row_i)
          = filter (\<lambda>v. \<not> (v \<in> set (x # xs) \<and> attacks row_i v row_j c)) (d0 row_i)"
      using False by (auto intro: filter_cong)
    have "fold (revise_value row_i row_j) (x # xs) (b, d0)
          = fold (revise_value row_i row_j) xs (b, d0)"
      by (simp add: step)
    also have "\<dots> = (b \<or> (\<exists>x \<in> set xs. attacks row_i x row_j c),
          d0(row_i := filter (\<lambda>v. \<not> (v \<in> set xs \<and> attacks row_i v row_j c)) (d0 row_i)))"
      by (rule Cons.IH) (rule Cons.prems)
    finally have fin: "fold (revise_value row_i row_j) (x # xs) (b, d0)
        = (b \<or> (\<exists>x \<in> set xs. attacks row_i x row_j c),
          d0(row_i := filter (\<lambda>v. \<not> (v \<in> set xs \<and> attacks row_i v row_j c)) (d0 row_i)))" .
    have flag: "(b \<or> (\<exists>y \<in> set (x # xs). attacks row_i y row_j c))
                = (b \<or> (\<exists>y \<in> set xs. attacks row_i y row_j c))"
      using False by simp
    show ?thesis unfolding flag flt [symmetric] by (rule fin)
  qed
qed

lemma revise_general_singleton:
  assumes "row_i \<noteq> row_j" and "doms row_j = [c]"
  shows "revise_general row_i row_j doms
         = (\<exists>x \<in> set (doms row_i). attacks row_i x row_j c,
            doms(row_i := filter (\<lambda>v. \<not> attacks row_i v row_j c) (doms row_i)))"
proof -
  have "filter (\<lambda>v. \<not> (v \<in> set (doms row_i) \<and> attacks row_i v row_j c)) (doms row_i)
        = filter (\<lambda>v. \<not> attacks row_i v row_j c) (doms row_i)"
    by (auto intro: filter_cong)
  then show ?thesis
    unfolding revise_general_def
    using revise_general_fold_singleton [of row_i row_j doms c "doms row_i" False] assms by simp
qed

lemma discard_col_char:
  assumes "col \<in> set xs \<longrightarrow> guard"
  shows "discard_col guard row_i col
           (\<exists>x \<in> set xs. x \<in> T, doms(row_i := filter (\<lambda>v. v \<notin> T) xs))
         = (\<exists>x \<in> set xs. x \<in> insert col T, doms(row_i := filter (\<lambda>v. v \<notin> insert col T) xs))"
proof -
  let ?d = "doms(row_i := filter (\<lambda>v. v \<notin> T) xs)"
  have flt: "removeAll col (filter (\<lambda>v. v \<notin> T) xs) = filter (\<lambda>v. v \<notin> insert col T) xs"
    by (auto simp: removeAll_filter_not_eq intro: filter_cong)
  show ?thesis
  proof (cases "guard \<and> col \<in> set (?d row_i)")
    case True
    then show ?thesis by (auto simp: discard_col_pair flt)
  next
    case False
    with assms have nin: "col \<notin> set (filter (\<lambda>v. v \<notin> T) xs)" by auto
    then have eq1: "filter (\<lambda>v. v \<notin> insert col T) xs = filter (\<lambda>v. v \<notin> T) xs"
      using flt by (simp add: removeAll_id)
    have eq2: "(\<exists>x \<in> set xs. x \<in> insert col T) = (\<exists>x \<in> set xs. x \<in> T)"
      using nin by auto
    have nd: "discard_col guard row_i col (\<exists>x \<in> set xs. x \<in> T, ?d) = (\<exists>x \<in> set xs. x \<in> T, ?d)"
      unfolding discard_col_pair using False by (rule if_not_P)
    show ?thesis unfolding eq1 eq2 by (rule nd)
  qed
qed

lemma revise_singleton_char:
  assumes "doms row_j = [c]" and "\<forall>v \<in> set (doms row_i). 0 \<le> v \<and> v < n"
  shows "revise_singleton n row_i row_j doms
         = (\<exists>x \<in> set (doms row_i). attacks row_i x row_j c,
            doms(row_i := filter (\<lambda>v. \<not> attacks row_i v row_j c) (doms row_i)))"
proof -
  let ?g = "\<bar>row_i - row_j\<bar>"
  let ?xs = "doms row_i"
  have att: "\<And>v. attacks row_i v row_j c = (v \<in> {c - ?g, c + ?g, c})"
    unfolding attacks_def by auto
  have up: "c + ?g \<in> set ?xs \<longrightarrow> c + ?g < n" and lo: "c - ?g \<in> set ?xs \<longrightarrow> 0 \<le> c - ?g"
    using assms(2) by blast+
  have s0: "(False, doms) = (\<exists>x \<in> set ?xs. x \<in> {}, doms(row_i := filter (\<lambda>v. v \<notin> {}) ?xs))"
    by simp
  have "revise_singleton n row_i row_j doms
        = discard_col (c - ?g \<ge> 0) row_i (c - ?g)
            (discard_col (c + ?g < n) row_i (c + ?g)
               (discard_col True row_i c (False, doms)))"
    by (simp add: revise_singleton_def Let_def assms(1))
  also have "discard_col True row_i c (False, doms)
        = (\<exists>x \<in> set ?xs. x \<in> {c}, doms(row_i := filter (\<lambda>v. v \<notin> {c}) ?xs))"
    unfolding s0 by (rule discard_col_char) simp
  also have "discard_col (c + ?g < n) row_i (c + ?g)
               (\<exists>x \<in> set ?xs. x \<in> {c}, doms(row_i := filter (\<lambda>v. v \<notin> {c}) ?xs))
        = (\<exists>x \<in> set ?xs. x \<in> {c + ?g, c}, doms(row_i := filter (\<lambda>v. v \<notin> {c + ?g, c}) ?xs))"
    by (rule discard_col_char) (rule up)
  also have "discard_col (c - ?g \<ge> 0) row_i (c - ?g)
               (\<exists>x \<in> set ?xs. x \<in> {c + ?g, c}, doms(row_i := filter (\<lambda>v. v \<notin> {c + ?g, c}) ?xs))
        = (\<exists>x \<in> set ?xs. x \<in> {c - ?g, c + ?g, c},
           doms(row_i := filter (\<lambda>v. v \<notin> {c - ?g, c + ?g, c}) ?xs))"
    by (rule discard_col_char) (rule lo)
  finally show ?thesis unfolding att .
qed

lemma revise_singleton_self:
  assumes "doms row_i = [c]"
  shows "revise_singleton n row_i row_i doms = (True, doms(row_i := []))"
    and "revise_general row_i row_i doms = (True, doms(row_i := []))"
  using assms by (simp_all add: revise_singleton_def revise_general_def revise_value_pair discard_col_pair Let_def)

text \<open>All columns of a domain lie on the board.\<close>

definition in_board :: "int \<Rightarrow> int list \<Rightarrow> bool" where
  "in_board n cols = list_all (\<lambda>v. 0 \<le> v \<and> v < n) cols"

text \<open>
  Claim C9, amended: when row \<open>j\<close>'s domain is a singleton and every column of row
  \<open>i\<close>'s domain lies in \<open>[0, n)\<close>, the singleton branch of \<^verbatim>\<open>revise\<close> leaves the same
  domain map and returns the same flag as the general branch would.
\<close>

theorem revise_shortcut_agrees:
  assumes "length (doms row_j) = 1" and "in_board n (doms row_i)"
  shows "revise_singleton n row_i row_j doms = revise_general row_i row_j doms"
proof -
  from assms(1) obtain c where c: "doms row_j = [c]"
    by (cases "doms row_j") auto
  have rng: "\<forall>v \<in> set (doms row_i). 0 \<le> v \<and> v < n"
    using assms(2) by (simp add: in_board_def list_all_iff)
  show ?thesis
  proof (cases "row_i = row_j")
    case True
    then show ?thesis using revise_singleton_self(1) [of doms row_i c n] revise_singleton_self(2) [of doms row_i c] c by simp
  next
    case False
    then show ?thesis
      using revise_singleton_char [of doms row_j c row_i n] revise_general_singleton [of row_i row_j doms c] c rng
      by simp
  qed
qed

text \<open>The domains that \<^verbatim>\<open>NQueensCSP(4, {0: 7, 1: 6})\<close> starts from.\<close>

definition off_board_domains :: domains where
  "off_board_domains = csp_init 4 [(0, 7), (1, 6)]"

text \<open>
  Claim C9, as stated (for every pair of rows with row \<open>j\<close>'s domain a singleton, the
  shortcut equals the general branch): it fails when row \<open>i\<close>'s domain holds a column
  off the board. The shortcut's guards \<^verbatim>\<open>col_j + diag_diff < self.n\<close> and
  \<^verbatim>\<open>col_j - diag_diff >= 0\<close> keep column 7 of row 0, which the general branch removes
  because it shares a diagonal with column 6 of row 1.
\<close>

theorem revise_shortcut_differs:
  "length (off_board_domains 1) = 1
   \<and> fst (revise_singleton 4 0 1 off_board_domains) = False
   \<and> snd (revise_singleton 4 0 1 off_board_domains) 0 = [7]
   \<and> fst (revise_general 0 1 off_board_domains) = True
   \<and> snd (revise_general 0 1 off_board_domains) 0 = []"
  by code_simp

text \<open>
  Every row of the board of size 4 open, except row 1, whose domain is \<open>{2}\<close>.
\<close>

definition shortcut_domains :: domains where
  "shortcut_domains = (csp_init 4 [])(1 := [2])"

theorem revise_shortcut_agrees_witness:
  "length (shortcut_domains 1) = 1 \<and> in_board 4 (shortcut_domains 0)
   \<and> shortcut_domains 0 = [0, 1, 2, 3]
   \<and> revise_singleton 4 0 1 shortcut_domains = revise_general 0 1 shortcut_domains
   \<and> fst (revise_general 0 1 shortcut_domains) = True
   \<and> snd (revise_general 0 1 shortcut_domains) 0 = [0]
   \<and> length (csp_init 4 [(1, 2)] 0) = 1 \<and> in_board 4 (csp_init 4 [(1, 2)] 2)
   \<and> csp_init 4 [(1, 2)] 2 = [0]
   \<and> revise_singleton 4 2 0 (csp_init 4 [(1, 2)]) = revise_general 2 0 (csp_init 4 [(1, 2)])
   \<and> fst (revise_general 2 0 (csp_init 4 [(1, 2)])) = True
   \<and> snd (revise_general 2 0 (csp_init 4 [(1, 2)])) 2 = []"
proof -
  have h1: "length (shortcut_domains 1) = 1" by code_simp
  have h2: "in_board 4 (shortcut_domains 0)" by code_simp
  have h3: "shortcut_domains 0 = [0, 1, 2, 3]" by code_simp
  have h4: "fst (revise_general 0 1 shortcut_domains) = True" by code_simp
  have h5: "snd (revise_general 0 1 shortcut_domains) 0 = [0]" by code_simp
  have k1: "length (csp_init 4 [(1, 2)] 0) = 1" by code_simp
  have k2: "in_board 4 (csp_init 4 [(1, 2)] 2)" by code_simp
  have k3: "csp_init 4 [(1, 2)] 2 = [0]" by code_simp
  have k4: "fst (revise_general 2 0 (csp_init 4 [(1, 2)])) = True" by code_simp
  have k5: "snd (revise_general 2 0 (csp_init 4 [(1, 2)])) 2 = []" by code_simp
  show ?thesis
    using revise_shortcut_agrees [OF h1 h2] revise_shortcut_agrees [OF k1 k2]
      h1 h2 h3 h4 h5 k1 k2 k3 k4 k5
    by simp
qed

subsection \<open>Termination of \<^verbatim>\<open>ac3\<close>\<close>

lemma ac3_loop_shrinks: "set (snd (ac3_loop n queue doms) r) \<subseteq> set (doms r)"
proof (induction n queue doms rule: ac3_loop.induct)
  case (1 n doms)
  show ?case by simp
next
  case (2 n row_i row_j queue doms)
  obtain b d' where rv: "revise n row_i row_j doms = (b, d')"
    by (cases "revise n row_i row_j doms")
  have sub: "set (d' r) \<subseteq> set (doms r)"
    using revise_frame(2,3) [OF rv] by (cases "r = row_i") auto
  show ?case
  proof (cases b)
    case True
    show ?thesis
    proof (cases "d' row_i = []")
      case True
      with \<open>b\<close> rv sub show ?thesis by simp
    next
      case False
      with \<open>b\<close> rv 2(1) [of "(b, d')" b d'] sub show ?thesis by auto
    qed
  next
    case False
    with rv 2(2) [of "(b, d')" b d'] sub show ?thesis by auto
  qed
qed

lemma ac3_loop_failure:
  "fst (ac3_loop n queue doms) \<or> (\<exists>i \<in> fst ` set queue. snd (ac3_loop n queue doms) i = [])
     \<or> (\<exists>i \<in> set (py_range n). snd (ac3_loop n queue doms) i = [])"
proof (induction n queue doms rule: ac3_loop.induct)
  case (1 n doms)
  show ?case by simp
next
  case (2 n row_i row_j queue doms)
  obtain b d' where rv: "revise n row_i row_j doms = (b, d')"
    by (cases "revise n row_i row_j doms")
  show ?case
  proof (cases b)
    case True
    show ?thesis
    proof (cases "d' row_i = []")
      case True
      with \<open>b\<close> rv show ?thesis by simp
    next
      case False
      have sub: "fst ` set (queue @ neighbours n row_i row_j) \<subseteq> fst ` set queue \<union> set (py_range n)"
        by (auto simp: neighbours_def)
      let ?R = "ac3_loop n (queue @ neighbours n row_i row_j) d'"
      have eq: "ac3_loop n ((row_i, row_j) # queue) doms = ?R"
        using False \<open>b\<close> rv by simp
      have "fst ?R \<or> (\<exists>i \<in> fst ` set (queue @ neighbours n row_i row_j). snd ?R i = [])
            \<or> (\<exists>i \<in> set (py_range n). snd ?R i = [])"
        using False \<open>b\<close> rv 2(1) [of "(b, d')" b d'] by simp
      with sub have "fst ?R \<or> (\<exists>i \<in> fst ` set queue. snd ?R i = [])
            \<or> (\<exists>i \<in> set (py_range n). snd ?R i = [])"
        by blast
      then show ?thesis unfolding eq by auto
    qed
  next
    case False
    with rv 2(2) [of "(b, d')" b d'] show ?thesis by auto
  qed
qed

lemma fst_all_arcs: "fst ` set (all_arcs n) \<subseteq> set (py_range n)"
  by (auto simp: all_arcs_def arcs_from_def)

text \<open>
  Claim C10: \<^verbatim>\<open>ac3\<close> terminates for every \<open>n\<close> and every initial domain map. The
  work-queue loop, started on all arcs, returns; when it returns \<^verbatim>\<open>False\<close> some row of
  the board has an empty domain, and no domain ever gains a column. (The loop is
  \<^const>\<open>ac3_while\<close>, for which not returning would be \<^const>\<open>None\<close>; the measure that
  makes it total is the one of \<^const>\<open>ac3_loop\<close>: a revision that changes a domain
  shrinks it, and one that does not shortens the queue.)
\<close>

theorem ac3_terminates:
  "\<exists>b d'. ac3_while n (all_arcs n) doms = Some (b, d')
          \<and> (\<not> b \<longrightarrow> (\<exists>i \<in> set (py_range n). d' i = []))
          \<and> (\<forall>r. set (d' r) \<subseteq> set (doms r))"
proof -
  obtain b d' where r: "ac3_loop n (all_arcs n) doms = (b, d')"
    by (cases "ac3_loop n (all_arcs n) doms")
  have "ac3_while n (all_arcs n) doms = Some (b, d')"
    by (simp add: ac3_while_total r)
  moreover have "\<not> b \<longrightarrow> (\<exists>i \<in> set (py_range n). d' i = [])"
    using ac3_loop_failure [of n "all_arcs n" doms] fst_all_arcs [of n] r by auto
  moreover have "\<forall>r. set (d' r) \<subseteq> set (doms r)"
    using ac3_loop_shrinks [of n "all_arcs n" doms] r by simp
  ultimately show ?thesis by blast
qed

theorem ac3_terminates_witness:
  "\<exists>b d'. ac3_while 3 (all_arcs 3) (csp_init 3 []) = Some (b, d') \<and> \<not> b \<and> d' 2 = []"
proof -
  have f: "fst (ac3_loop 3 (all_arcs 3) (csp_init 3 [])) = False"
    and e: "snd (ac3_loop 3 (all_arcs 3) (csp_init 3 [])) 2 = []"
    by code_simp+
  from ac3_terminates [of 3 "csp_init 3 []"] obtain b d'
    where w: "ac3_while 3 (all_arcs 3) (csp_init 3 []) = Some (b, d')" by blast
  with f e have "\<not> b \<and> d' 2 = []" by (simp add: ac3_while_total)
  with w show ?thesis by blast
qed

subsection \<open>Reasoning about the backtracking search\<close>

text \<open>The candidate loop, one candidate at a time, and the induction that follows the
  calls of the search.\<close>

lemma try_values_Cons:
  "try_values n row (col # cols) assignment doms =
     (if \<not> is_consistent row col assignment then try_values n row cols assignment doms
      else case forward_check n row col (AList.update row col assignment) doms [] of
        (ok, doms1, local_pruned) \<Rightarrow>
          if \<not> ok then try_values n row cols assignment (restore local_pruned doms1)
          else case backtrack n (AList.update row col assignment) doms1 of
            (res, doms2) \<Rightarrow>
              if res = NoSolution then try_values n row cols assignment (restore local_pruned doms2)
              else (res, doms2))"
  by (auto split: prod.splits result.splits bool.splits)

lemma backtrack_induct [case_names backtrack no_values try_value]:
  assumes "\<And>n assignment doms.
      (\<And>row. int (length assignment) \<noteq> n \<Longrightarrow>
             select_unassigned_variable n assignment doms = Some row \<Longrightarrow>
             Q n row (order_domain_values n row assignment doms) assignment doms) \<Longrightarrow>
      P n assignment doms"
    and "\<And>n row assignment doms. Q n row [] assignment doms"
    and "\<And>n row col cols assignment doms.
      (\<And>doms1 lp. is_consistent row col assignment \<Longrightarrow>
          forward_check n row col (AList.update row col assignment) doms [] = (True, doms1, lp) \<Longrightarrow>
          P n (AList.update row col assignment) doms1) \<Longrightarrow>
      (\<And>doms1 lp doms2. is_consistent row col assignment \<Longrightarrow>
          forward_check n row col (AList.update row col assignment) doms [] = (True, doms1, lp) \<Longrightarrow>
          backtrack n (AList.update row col assignment) doms1 = (NoSolution, doms2) \<Longrightarrow>
          Q n row cols assignment (restore lp doms2)) \<Longrightarrow>
      (\<And>doms1 lp. is_consistent row col assignment \<Longrightarrow>
          forward_check n row col (AList.update row col assignment) doms [] = (False, doms1, lp) \<Longrightarrow>
          Q n row cols assignment (restore lp doms1)) \<Longrightarrow>
      (\<not> is_consistent row col assignment \<Longrightarrow> Q n row cols assignment doms) \<Longrightarrow>
      Q n row (col # cols) assignment doms"
  shows "P n assignment doms" and "Q n row cols assignment doms"
proof (induction n assignment doms and n row cols assignment doms rule: backtrack_try_values.induct)
  case (1 n assignment doms)
  show ?case by (rule assms(1)) (rule 1)
next
  case (2 n row assignment doms)
  show ?case by (rule assms(2))
next
  case (3 n row col cols assignment doms)
  show ?case
  proof (rule assms(3))
    fix doms1 lp
    assume "is_consistent row col assignment"
      and "forward_check n row col (AList.update row col assignment) doms [] = (True, doms1, lp)"
    then show "P n (AList.update row col assignment) doms1"
      using 3(1) [of True "(doms1, lp)" doms1 lp] by simp
  next
    fix doms1 lp doms2
    assume "is_consistent row col assignment"
      and "forward_check n row col (AList.update row col assignment) doms [] = (True, doms1, lp)"
      and "backtrack n (AList.update row col assignment) doms1 = (NoSolution, doms2)"
    then show "Q n row cols assignment (restore lp doms2)"
      using 3(2) [of True "(doms1, lp)" doms1 lp NoSolution doms2] by simp
  next
    fix doms1 lp
    assume "is_consistent row col assignment"
      and "forward_check n row col (AList.update row col assignment) doms [] = (False, doms1, lp)"
    then show "Q n row cols assignment (restore lp doms1)"
      using 3(3) [of False "(doms1, lp)" doms1 lp] by simp
  next
    assume "\<not> is_consistent row col assignment"
    then show "Q n row cols assignment doms" by (rule 3(4))
  qed
qed

lemma map_of_update_other: "r \<noteq> row \<Longrightarrow> map_of (AList.update row col assignment) r = map_of assignment r"
  by (simp add: update_conv')

lemma backtrack_keeps_assignment:
  shows "fst (backtrack n assignment doms) = Solution A \<Longrightarrow> has_key r assignment
         \<Longrightarrow> map_of A r = map_of assignment r"
    and "fst (try_values n row cols assignment doms) = Solution A \<Longrightarrow> has_key r assignment
         \<Longrightarrow> \<not> has_key row assignment \<Longrightarrow> map_of A r = map_of assignment r"
proof (induction n assignment doms and n row cols assignment doms
       arbitrary: A r and A r rule: backtrack_induct)
  case (backtrack n assignment doms)
  show ?case
  proof (cases "int (length assignment) = n")
    case True
    with backtrack.prems show ?thesis by simp
  next
    case False
    with backtrack.prems obtain row where sel: "select_unassigned_variable n assignment doms = Some row"
      by (auto split: option.splits)
    from select_unassigned_variable_Some(2) [OF sel] have free: "\<not> has_key row assignment" .
    from backtrack.prems False sel
    have "fst (try_values n row (order_domain_values n row assignment doms) assignment doms) = Solution A"
      by simp
    from backtrack.IH [OF False sel this backtrack.prems(2) free] show ?thesis .
  qed
next
  case (no_values n row assignment doms)
  then show ?case by simp
next
  case (try_value n row col cols assignment doms)
  let ?asg = "AList.update row col assignment"
  note prems = try_value.prems
  from prems have ne: "r \<noteq> row" by auto
  have key: "has_key r ?asg" using prems(2) by (simp add: has_key_update)
  show ?case
  proof (cases "is_consistent row col assignment")
    case False
    with prems(1) have "fst (try_values n row cols assignment doms) = Solution A"
      by (simp add: try_values_Cons del: try_values.simps)
    from try_value.IH(4) [OF False this prems(2,3)] show ?thesis .
  next
    case True
    obtain ok doms1 lp where fc: "forward_check n row col ?asg doms [] = (ok, doms1, lp)"
      by (cases "forward_check n row col ?asg doms []")
    show ?thesis
    proof (cases ok)
      case False
      with prems(1) True fc have "fst (try_values n row cols assignment (restore lp doms1)) = Solution A"
        by (simp add: try_values_Cons del: try_values.simps)
      moreover from fc False have "forward_check n row col ?asg doms [] = (False, doms1, lp)" by simp
      ultimately show ?thesis using try_value.IH(3) [OF True _ _ prems(2,3)] by blast
    next
      case ok: True
      with fc have fcT: "forward_check n row col ?asg doms [] = (True, doms1, lp)" by simp
      obtain res doms2 where bt: "backtrack n ?asg doms1 = (res, doms2)"
        by (cases "backtrack n ?asg doms1")
      show ?thesis
      proof (cases "res = NoSolution")
        case True
        with prems(1) \<open>is_consistent row col assignment\<close> fc ok bt
        have "fst (try_values n row cols assignment (restore lp doms2)) = Solution A"
          by (simp add: try_values_Cons del: try_values.simps)
        moreover from bt True have "backtrack n ?asg doms1 = (NoSolution, doms2)" by simp
        ultimately show ?thesis
          using try_value.IH(2) [OF \<open>is_consistent row col assignment\<close> fcT _ _ prems(2,3)] by blast
      next
        case False
        with prems(1) True fc ok bt
        have "fst (backtrack n ?asg doms1) = Solution A"
          by (simp add: try_values_Cons del: try_values.simps)
        from try_value.IH(1) [OF True fcT this key]
        have "map_of A r = map_of ?asg r" .
        then show ?thesis using ne by (simp add: map_of_update_other)
      qed
    qed
  qed
qed

subsection \<open>Rows fixed by the partial assignment\<close>

lemma choice_in: "xs \<noteq> [] \<Longrightarrow> choice rnd k xs \<in> set xs"
  by (simp add: choice_def)

lemma seed_row_keeps:
  assumes "has_key r assignment"
  shows "has_key r (fst (seed_row n doms rnd row (assignment, k)))"
    and "map_of (fst (seed_row n doms rnd row (assignment, k))) r = map_of assignment r"
proof -
  have "has_key row assignment \<or> r \<noteq> row" using assms by auto
  then show "has_key r (fst (seed_row n doms rnd row (assignment, k)))"
    and "map_of (fst (seed_row n doms rnd row (assignment, k))) r = map_of assignment r"
    using assms by (auto simp: seed_row_def Let_def has_key_update map_of_update_other)
qed

lemma seed_rows_keep:
  assumes "has_key r assignment"
  shows "has_key r (fst (fold (seed_row n doms rnd) rows (assignment, k)))
         \<and> map_of (fst (fold (seed_row n doms rnd) rows (assignment, k))) r = map_of assignment r"
  using assms
proof (induction rows arbitrary: assignment k)
  case Nil
  then show ?case by simp
next
  case (Cons row rows)
  obtain a1 k1 where st: "seed_row n doms rnd row (assignment, k) = (a1, k1)"
    by (cases "seed_row n doms rnd row (assignment, k)")
  from seed_row_keeps [OF Cons.prems, of n doms rnd row k] st
  have "has_key r a1" and "map_of a1 r = map_of assignment r" by simp_all
  with Cons.IH [of a1 k1] st show ?case by simp
qed

lemma repair_keeps_fixed:
  assumes "repair steps n P rnd assignment k = Solution A" and "has_key r P"
  shows "map_of A r = map_of assignment r"
  using assms
proof (induction steps arbitrary: assignment k)
  case 0
  then show ?case by simp
next
  case (Suc steps)
  let ?rows = "filter (is_conflicted P assignment) (py_range n)"
  show ?case
  proof (cases "?rows = []")
    case True
    with Suc.prems show ?thesis by (simp add: Let_def)
  next
    case False
    let ?row = "choice rnd k ?rows"
    let ?best = "best_columns (moved_conflicts assignment ?row) (py_range n)"
    let ?asg = "AList.update ?row (choice rnd (Suc k) ?best) assignment"
    from choice_in [OF False] have "?row \<in> set ?rows" .
    then have "\<not> has_key ?row P" by (simp add: is_conflicted_def)
    with Suc.prems(2) have ne: "r \<noteq> ?row" by auto
    from Suc.prems(1) False have "repair steps n P rnd ?asg (k + 2) = Solution A"
      by (simp add: Let_def)
    from Suc.IH [OF this Suc.prems(2)] have "map_of A r = map_of ?asg r" .
    then show ?thesis using ne by (simp add: map_of_update_other)
  qed
qed

lemma repair_no_conflicts:
  assumes "repair steps n P rnd assignment k = Solution A"
    and "row \<in> set (py_range n)" and "\<not> has_key row P"
  shows "count_conflicts row (get_item A row) A = 0"
  using assms
proof (induction steps arbitrary: assignment k)
  case 0
  then show ?case by simp
next
  case (Suc steps)
  let ?rows = "filter (is_conflicted P assignment) (py_range n)"
  show ?case
  proof (cases "?rows = []")
    case True
    with Suc.prems(1) have A: "A = assignment" by (simp add: Let_def)
    from True have "row \<notin> set ?rows" by simp
    with Suc.prems(2,3) show ?thesis unfolding A by (simp add: is_conflicted_def)
  next
    case False
    with Suc.prems(1) Suc.IH [OF _ Suc.prems(2,3)] show ?thesis
      by (simp add: Let_def)
  qed
qed

lemma repair_done:
  assumes "filter (is_conflicted P assignment) (py_range n) = []"
    and "0 < steps"
  shows "repair steps n P rnd assignment k = Solution assignment"
proof -
  from assms(2) obtain m where "steps = Suc m" by (cases steps) auto
  with assms(1) show ?thesis by (simp add: Let_def)
qed

lemma min_conflicts_keeps_fixed:
  assumes "min_conflicts n P doms rnd max_steps = Solution A" and "has_key r P"
  shows "map_of A r = map_of P r"
proof -
  obtain a k where sd: "fold (seed_row n doms rnd) (py_range n) (P, 0) = (a, k)"
    by (cases "fold (seed_row n doms rnd) (py_range n) (P, 0)")
  with assms(1) have "repair (nat max_steps) n P rnd a k = Solution A"
    by (simp add: min_conflicts_def)
  from repair_keeps_fixed [OF this assms(2)] have "map_of A r = map_of a r" .
  also have "\<dots> = map_of P r"
    using seed_rows_keep [OF assms(2), of n doms rnd "py_range n" 0] sd by simp
  finally show ?thesis .
qed

lemma backtrack_search_keeps_fixed:
  assumes "backtrack_search n P doms = Solution A" and "has_key r P"
  shows "map_of A r = map_of P r"
proof -
  obtain b d where a: "ac3 n doms = (b, d)" by (cases "ac3 n doms")
  with assms(1) have "fst (backtrack n P d) = Solution A"
    by (cases b) (simp_all add: backtrack_search_def)
  from backtrack_keeps_assignment(1) [OF this assms(2)] show ?thesis .
qed

text \<open>
  Claim C7: for every \<open>n\<close> and partial assignment \<open>P\<close>, and for both search strategies, an
  assignment that \<^verbatim>\<open>solve\<close> returns maps every row of \<open>P\<close> to the column \<open>P\<close> gives it: no
  fixed row is reassigned or removed. (It holds whether or not the columns of \<open>P\<close> are in
  range.)
\<close>

theorem solve_keeps_partial_assignment:
  assumes "solve n P rnd = Solution A" and "has_key r P"
  shows "map_of A r = map_of P r"
  using assms backtrack_search_keeps_fixed [of n P "csp_init n P" A r]
    min_conflicts_keeps_fixed [of n P "csp_init n P" rnd "n * 100" A r]
  by (simp add: solve_def Let_def split: if_splits)

theorem solve_keeps_partial_assignment_witness:
  "solve 4 [(0, 1)] first_choice = Solution [(0, 1), (1, 3), (2, 0), (3, 2)] \<and> has_key 0 [(0, 1)]
   \<and> map_of [(0, 1), (1, 3), (2, 0), (3, 2)] (0::int) = map_of [(0, 1::int)] 0"
proof -
  have s: "solve 4 [(0, 1)] first_choice = Solution [(0, 1), (1, 3), (2, 0), (3, 2)]"
    by code_simp
  have h: "has_key 0 [(0, 1)]" by (simp add: has_key_def)
  from solve_keeps_partial_assignment [OF s h] s h show ?thesis by simp
qed

text \<open>Two fixed queens on one diagonal.\<close>

definition diagonal_pair :: dict where
  "diagonal_pair = [(0, 0), (1, 1)]"

text \<open>
  Claim C8: \<^verbatim>\<open>min_conflicts\<close> returns an assignment only when every row of the board that
  the partial assignment does not fix has zero conflicts; conflicts between two fixed rows
  are not examined: on the board of size 6 with rows 0 and 1 fixed on one diagonal, it
  returns an assignment in which those two queens attack each other.
\<close>

theorem min_conflicts_zero_conflicts_of_free_rows:
  "(\<forall>n P doms rnd max_steps A row.
      min_conflicts n P doms rnd max_steps = Solution A \<longrightarrow>
      row \<in> set (py_range n) \<longrightarrow> \<not> has_key row P \<longrightarrow>
      count_conflicts row (get_item A row) A = 0)
   \<and> min_conflicts 6 diagonal_pair (csp_init 6 diagonal_pair) first_choice 600
       = Solution [(0, 0), (1, 1), (2, 3), (3, 5), (4, 2), (5, 4)]
   \<and> attacks 0 0 1 1"
proof -
  have "count_conflicts row (get_item A row) A = 0"
    if "min_conflicts n P doms rnd max_steps = Solution A"
      and "row \<in> set (py_range n)" and "\<not> has_key row P"
    for n P doms rnd max_steps A row
  proof -
    obtain a k where sd: "fold (seed_row n doms rnd) (py_range n) (P, 0) = (a, k)"
      by (cases "fold (seed_row n doms rnd) (py_range n) (P, 0)")
    with that(1) have "repair (nat max_steps) n P rnd a k = Solution A"
      by (simp add: min_conflicts_def)
    from repair_no_conflicts [OF this that(2,3)] show ?thesis .
  qed
  moreover have "min_conflicts 6 diagonal_pair (csp_init 6 diagonal_pair) first_choice 600
       = Solution [(0, 0), (1, 1), (2, 3), (3, 5), (4, 2), (5, 4)]"
  proof -
    have seed: "fold (seed_row 6 (csp_init 6 diagonal_pair) first_choice) (py_range 6) (diagonal_pair, 0)
                = ([(0, 0), (1, 1), (2, 3), (3, 5), (4, 2), (5, 4)], 4)"
      by code_simp
    have none: "filter (is_conflicted diagonal_pair [(0, 0), (1, 1), (2, 3), (3, 5), (4, 2), (5, 4)])
                  (py_range 6) = []"
      by code_simp
    have "(0::nat) < nat 600" by simp
    from repair_done [OF none this] show ?thesis
      by (simp add: min_conflicts_def seed)
  qed
  moreover have "attacks 0 0 1 1" by (simp add: attacks_def)
  ultimately show ?thesis by blast
qed


theorem min_conflicts_zero_conflicts_of_free_rows_witness:
  "min_conflicts 6 diagonal_pair (csp_init 6 diagonal_pair) first_choice 600
     = Solution [(0, 0), (1, 1), (2, 3), (3, 5), (4, 2), (5, 4)]
   \<and> 2 \<in> set (py_range 6) \<and> \<not> has_key 2 diagonal_pair
   \<and> count_conflicts 2 (get_item [(0, 0), (1, 1), (2, 3), (3, 5), (4, 2), (5, 4)] 2)
         [(0, 0), (1, 1), (2, 3), (3, 5), (4, 2), (5, 4)] = 0
   \<and> count_conflicts 0 (get_item [(0, 0), (1, 1), (2, 3), (3, 5), (4, 2), (5, 4)] 0)
         [(0, 0), (1, 1), (2, 3), (3, 5), (4, 2), (5, 4)] = 1"
proof -
  have r: "2 \<in> set (py_range 6)" by code_simp
  have f: "\<not> has_key 2 diagonal_pair" by code_simp
  have c: "count_conflicts 0 (get_item [(0, 0), (1, 1), (2, 3), (3, 5), (4, 2), (5, 4)] 0)
         [(0, 0), (1, 1), (2, 3), (3, 5), (4, 2), (5, 4)] = 1" by code_simp
  from min_conflicts_zero_conflicts_of_free_rows r f c show ?thesis by blast
qed

subsection \<open>Restoration of the domains on backtrack\<close>

text \<open>The columns that a pruning record holds for a row.\<close>

definition pruned_set :: "pruned \<Rightarrow> int \<Rightarrow> int set" where
  "pruned_set p r = (\<Union>e \<in> {e \<in> set p. fst e = r}. set (snd e))"

lemma pruned_set_Nil: "pruned_set [] r = {}"
  by (simp add: pruned_set_def)

lemma pruned_set_Cons:
  "pruned_set (e # p) r = (if fst e = r then set (snd e) \<union> pruned_set p r else pruned_set p r)"
  by (auto simp: pruned_set_def)

lemma pruned_set_append: "pruned_set (p @ q) r = pruned_set p r \<union> pruned_set q r"
  by (auto simp: pruned_set_def)

lemma set_set_update: "set (set_update cols xs) = set xs \<union> set cols"
  unfolding set_update_def
  by (induction cols arbitrary: xs) (auto simp: set_insort_key)

lemma set_restore_row:
  "set (restore_row e d r) = (if r = fst e then set (d r) \<union> set (snd e) else set (d r))"
  by (simp add: restore_row_def set_set_update)

lemma set_restore: "set (restore p d r) = set (d r) \<union> pruned_set p r"
  unfolding restore_def
proof (induction p arbitrary: d)
  case Nil
  show ?case by (simp add: pruned_set_Nil)
next
  case (Cons e p)
  show ?case
    by (auto simp: Cons.IH set_restore_row pruned_set_Cons)
qed

lemma pruned_set_update:
  assumes "map_of p r = Some old"
  shows "pruned_set (AList.update r (old @ vals) p) r'
         = pruned_set p r' \<union> (if r' = r then set vals else {})"
  using assms
proof (induction p)
  case Nil
  then show ?case by simp
next
  case (Cons e p)
  obtain k v where e: "e = (k, v)" by (cases e)
  show ?case
  proof (cases "k = r")
    case True
    with Cons.prems e have "v = old" by simp
    with True e show ?thesis by (auto simp: pruned_set_Cons)
  next
    case False
    with Cons.prems e have "map_of p r = Some old" by simp
    from Cons.IH [OF this] False e show ?thesis by (auto simp: pruned_set_Cons)
  qed
qed

lemma pruned_set_extend:
  "pruned_set (pruned_extend r vals p) r' = pruned_set p r' \<union> (if r' = r then set vals else {})"
proof (cases "map_of p r")
  case None
  then show ?thesis
    by (auto simp: pruned_extend_def pruned_set_append pruned_set_Cons pruned_set_Nil)
next
  case (Some old)
  then show ?thesis
    using pruned_set_update [OF Some, of vals r'] by (simp add: pruned_extend_def)
qed

lemma forward_check_rows_records:
  assumes "forward_check_rows rows row col assignment doms pruned = (ok, doms', pruned')"
  shows "set (doms' r) \<union> pruned_set pruned' r = set (doms r) \<union> pruned_set pruned r"
  using assms
proof (induction rows row col assignment doms pruned rule: forward_check_rows.induct)
  case (1 row col assignment doms pruned)
  then show ?case by simp
next
  case (2 other_row rest row col assignment doms pruned)
  show ?case
  proof (cases "other_row \<noteq> row \<and> \<not> has_key other_row assignment")
    case False
    with 2 show ?thesis by simp
  next
    case True
    let ?vals = "filter (\<lambda>other_col. attacks row col other_row other_col) (doms other_row)"
    let ?keep = "filter (\<lambda>other_col. \<not> attacks row col other_row other_col) (doms other_row)"
    let ?d1 = "doms(other_row := ?keep)"
    let ?p1 = "if ?vals \<noteq> [] then pruned_extend other_row ?vals pruned else pruned"
    have one: "set (?d1 r) \<union> pruned_set ?p1 r = set (doms r) \<union> pruned_set pruned r"
    proof (cases "?vals = []")
      case True
      then have "set ?vals = {}" by simp
      then have "set ?keep = set (doms other_row)" by auto
      with True show ?thesis by simp
    next
      case False
      then show ?thesis by (auto simp: pruned_set_extend)
    qed
    show ?thesis
    proof (cases "?keep = []")
      case True
      with "2.prems" \<open>other_row \<noteq> row \<and> \<not> has_key other_row assignment\<close>
      have "doms' = ?d1" and "pruned' = ?p1" by (simp_all add: Let_def)
      with one show ?thesis by simp
    next
      case False
      with "2.prems" \<open>other_row \<noteq> row \<and> \<not> has_key other_row assignment\<close>
      have "forward_check_rows rest row col assignment ?d1 ?p1 = (ok, doms', pruned')"
        by (simp add: Let_def)
      from 2(1) [OF \<open>other_row \<noteq> row \<and> \<not> has_key other_row assignment\<close> refl refl refl _ this] False
      have "set (doms' r) \<union> pruned_set pruned' r = set (?d1 r) \<union> pruned_set ?p1 r"
        by simp
      with one show ?thesis by simp
    qed
  qed
qed

lemma forward_check_restore:
  assumes "forward_check n row col assignment doms [] = (ok, doms1, lp)"
  shows "set (restore lp doms1 r) = set (doms r)"
  using forward_check_rows_records [OF assms [unfolded forward_check_def], of r]
  by (simp add: set_restore pruned_set_Nil)


lemma uncommit_restores:
  "\<not> has_key row assignment \<Longrightarrow> AList.delete row (AList.update row col assignment) = assignment"
  by (induction assignment) (auto simp: has_key_def)

lemma backtrack_failure_restores:
  shows "fst (backtrack n assignment doms) = NoSolution
         \<Longrightarrow> set (snd (backtrack n assignment doms) r) = set (doms r)"
    and "fst (try_values n row cols assignment doms) = NoSolution
         \<Longrightarrow> set (snd (try_values n row cols assignment doms) r) = set (doms r)"
proof (induction n assignment doms and n row cols assignment doms
       arbitrary: r and r rule: backtrack_induct)
  case (backtrack n assignment doms)
  show ?case
  proof (cases "int (length assignment) = n")
    case True
    with backtrack.prems show ?thesis by simp
  next
    case False
    with backtrack.prems obtain row where sel: "select_unassigned_variable n assignment doms = Some row"
      by (auto split: option.splits)
    with False have eq: "backtrack n assignment doms
        = try_values n row (order_domain_values n row assignment doms) assignment doms"
      by simp
    from backtrack.IH [OF False sel] backtrack.prems show ?thesis
      unfolding eq by simp
  qed
next
  case (no_values n row assignment doms)
  show ?case by simp
next
  case (try_value n row col cols assignment doms)
  let ?asg = "AList.update row col assignment"
  note prems = try_value.prems
  show ?case
  proof (cases "is_consistent row col assignment")
    case False
    then have eq: "try_values n row (col # cols) assignment doms = try_values n row cols assignment doms"
      by (simp add: try_values_Cons del: try_values.simps)
    from try_value.IH(4) [OF False] prems show ?thesis unfolding eq by simp
  next
    case True
    obtain ok doms1 lp where fc: "forward_check n row col ?asg doms [] = (ok, doms1, lp)"
      by (cases "forward_check n row col ?asg doms []")
    show ?thesis
    proof (cases ok)
      case False
      with fc have fcF: "forward_check n row col ?asg doms [] = (False, doms1, lp)" by simp
      with True have eq: "try_values n row (col # cols) assignment doms
          = try_values n row cols assignment (restore lp doms1)"
        by (simp add: try_values_Cons del: try_values.simps)
      from try_value.IH(3) [OF True fcF] prems
      have "set (snd (try_values n row (col # cols) assignment doms) r) = set (restore lp doms1 r)"
        unfolding eq by simp
      with forward_check_restore [OF fcF] show ?thesis by simp
    next
      case ok: True
      with fc have fcT: "forward_check n row col ?asg doms [] = (True, doms1, lp)" by simp
      obtain res doms2 where bt: "backtrack n ?asg doms1 = (res, doms2)"
        by (cases "backtrack n ?asg doms1")
      show ?thesis
      proof (cases "res = NoSolution")
        case False
        with True fcT bt have "try_values n row (col # cols) assignment doms = (res, doms2)"
          by (simp add: try_values_Cons del: try_values.simps)
        with prems False show ?thesis by simp
      next
        case res: True
        with bt have btN: "backtrack n ?asg doms1 = (NoSolution, doms2)" by simp
        with True fcT have eq: "try_values n row (col # cols) assignment doms
            = try_values n row cols assignment (restore lp doms2)"
          by (simp add: try_values_Cons del: try_values.simps)
        from try_value.IH(2) [OF True fcT btN] prems
        have 1: "set (snd (try_values n row (col # cols) assignment doms) r) = set (restore lp doms2 r)"
          unfolding eq by simp
        from try_value.IH(1) [OF True fcT, of r] btN
        have 2: "set (doms2 r) = set (doms1 r)" by simp
        have "set (restore lp doms2 r) = set (restore lp doms1 r)"
          using 2 by (simp add: set_restore)
        with 1 forward_check_restore [OF fcT] show ?thesis by simp
      qed
    qed
  qed
qed

text \<open>
  Claim C4: in backtracking search, for every search node and every candidate value whose
  branch fails, by forward checking or by the recursive call, the domain map that results
  from restoring the values pruned in this frame holds, for every row, the same set of
  columns as before the candidate was attempted; uncommitting the row gives back the
  assignment.
\<close>

theorem failed_branch_restores_domains:
  assumes "is_consistent row col assignment"
    and "forward_check n row col (AList.update row col assignment) doms [] = (ok, doms1, local_pruned)"
  shows "(\<not> ok \<longrightarrow> set (restore local_pruned doms1 r) = set (doms r))
       \<and> (ok \<longrightarrow> backtrack n (AList.update row col assignment) doms1 = (NoSolution, doms2)
             \<longrightarrow> set (restore local_pruned doms2 r) = set (doms r))
       \<and> (\<not> has_key row assignment
             \<longrightarrow> AList.delete row (AList.update row col assignment) = assignment)"
proof -
  have "set (restore local_pruned doms2 r) = set (doms r)"
    if "backtrack n (AList.update row col assignment) doms1 = (NoSolution, doms2)"
  proof -
    from backtrack_failure_restores(1) [of n "AList.update row col assignment" doms1 r] that
    have "set (doms2 r) = set (doms1 r)" by simp
    then have "set (restore local_pruned doms2 r) = set (restore local_pruned doms1 r)"
      by (simp add: set_restore)
    with forward_check_restore [OF assms(2)] show ?thesis by simp
  qed
  with forward_check_restore [OF assms(2), of r] uncommit_restores [of row assignment col]
  show ?thesis by blast
qed


theorem failed_branch_restores_domains_witness:
  "is_consistent 0 0 []
   \<and> fst (forward_check 4 0 0 [(0, 0)] (csp_init 4 []) []) = True
   \<and> fst (snd (forward_check 4 0 0 [(0, 0)] (csp_init 4 []) [])) 1 = [2, 3]
   \<and> fst (backtrack 4 [(0, 0)] (fst (snd (forward_check 4 0 0 [(0, 0)] (csp_init 4 []) [])))) = NoSolution
   \<and> set (restore (snd (snd (forward_check 4 0 0 [(0, 0)] (csp_init 4 []) [])))
             (snd (backtrack 4 [(0, 0)] (fst (snd (forward_check 4 0 0 [(0, 0)] (csp_init 4 []) [])))))
             1)
       = set (csp_init 4 [] 1)
   \<and> \<not> has_key 0 []
   \<and> AList.delete 0 (AList.update 0 0 []) = ([] :: dict)"
proof -
  let ?fc = "forward_check 4 0 0 [(0, 0)] (csp_init 4 []) []"
  let ?bt = "backtrack 4 [(0, 0)] (fst (snd ?fc))"
  have c: "is_consistent 0 0 []" by code_simp
  have ok: "fst ?fc = True" by code_simp
  have d1: "fst (snd ?fc) 1 = [2, 3]" by code_simp
  have no: "fst ?bt = NoSolution" by code_simp
  have k: "\<not> has_key 0 []" by code_simp
  have fc: "forward_check 4 0 (0::int) (AList.update 0 0 []) (csp_init 4 []) []
            = (fst ?fc, fst (snd ?fc), snd (snd ?fc))" by simp
  have bt: "backtrack 4 (AList.update 0 0 []) (fst (snd ?fc)) = (NoSolution, snd ?bt)"
    using no by (simp add: prod_eq_iff)
  from failed_branch_restores_domains [OF c fc, where ?doms2.0 = "snd ?bt" and r = 1] ok bt k
  have "set (restore (snd (snd ?fc)) (snd ?bt) 1) = set (csp_init 4 [] 1)"
    and "AList.delete 0 (AList.update 0 0 []) = ([] :: dict)" by simp_all
  with c ok d1 no k show ?thesis by simp
qed

subsection \<open>A partial assignment that is already a solution\<close>

text \<open>The check of the test suite (\<^verbatim>\<open>is_valid_solution\<close> in \<^verbatim>\<open>test_n_queens.py\<close>): no two
  entries with different rows share a column or a diagonal.\<close>

definition is_valid_solution :: "dict \<Rightarrow> bool" where
  "is_valid_solution assignment =
     list_all (\<lambda>(row1, col1).
        list_all (\<lambda>(row2, col2). \<not> (row1 \<noteq> row2 \<and> attacks row1 col1 row2 col2)) assignment)
       assignment"

lemma is_valid_solutionD:
  "is_valid_solution A \<Longrightarrow> (r1, c1) \<in> set A \<Longrightarrow> (r2, c2) \<in> set A \<Longrightarrow> r1 \<noteq> r2
   \<Longrightarrow> \<not> attacks r1 c1 r2 c2"
  by (fastforce simp: is_valid_solution_def list_all_iff)

lemma set_py_range: "set (py_range n) = {r. 0 \<le> r \<and> r < n}"
proof -
  have "r \<in> int ` {0..<nat n} \<longleftrightarrow> 0 \<le> r \<and> r < n" for r
  proof
    assume "r \<in> int ` {0..<nat n}" then show "0 \<le> r \<and> r < n" by auto
  next
    assume "0 \<le> r \<and> r < n"
    then have "r = int (nat r)" and "nat r \<in> {0..<nat n}" by auto
    then show "r \<in> int ` {0..<nat n}" by blast
  qed
  then show ?thesis by (auto simp: py_range_def)
qed

lemma distinct_py_range: "distinct (py_range n)"
  by (simp add: py_range_def distinct_map inj_on_def)

lemma length_py_range: "length (py_range n) = nat n"
  by (simp add: py_range_def)

lemma get_item_in: "has_key r P \<Longrightarrow> distinct (map fst P) \<Longrightarrow> (r, get_item P r) \<in> set P"
  by (auto simp: has_key_def get_item_def)

lemma prune_rows_fixed:
  "\<forall>r \<in> set rows. has_key r P \<Longrightarrow> fold (prune_row n P row col) rows d = d"
  by (induction rows arbitrary: d) (simp_all add: prune_row_def)

lemma initialize_domains_complete:
  assumes "\<forall>r \<in> set (py_range n). has_key r P"
  shows "fold (prune_for n P) Q d = d"
  by (induction Q arbitrary: d) (simp_all add: prune_for_def prune_rows_fixed [OF assms])

lemma csp_init_complete:
  assumes "\<forall>r \<in> set (py_range n). has_key r P"
  shows "csp_init n P = init_domains n P"
  by (simp add: csp_init_def initialize_domains_def initialize_domains_complete [OF assms])

lemma revise_no_attack:
  assumes "doms row_j = [cj]" and "doms row_i = [ci]" and "\<not> attacks row_i ci row_j cj"
  shows "revise n row_i row_j doms = (False, doms)"
proof -
  from assms(3) have "cj \<noteq> ci" "cj + \<bar>row_i - row_j\<bar> \<noteq> ci" "cj - \<bar>row_i - row_j\<bar> \<noteq> ci"
    by (auto simp: attacks_def)
  then show ?thesis
    by (simp add: revise_def revise_singleton_def Let_def assms(1,2) discard_col_pair)
qed

lemma ac3_loop_no_change:
  assumes "\<forall>(i, j) \<in> set queue. revise n i j doms = (False, doms)"
  shows "ac3_loop n queue doms = (True, doms)"
  using assms by (induction queue) auto

lemma all_arcs_iff:
  "(i, j) \<in> set (all_arcs n) \<longleftrightarrow> i \<in> set (py_range n) \<and> j \<in> set (py_range n) \<and> i \<noteq> j"
  by (auto simp: all_arcs_def arcs_from_def)

lemma seed_rows_fixed:
  "\<forall>r \<in> set rows. has_key r assignment \<Longrightarrow> fold (seed_row n doms rnd) rows (assignment, k) = (assignment, k)"
  by (induction rows) (simp_all add: seed_row_def)

text \<open>
  Claim C5: for every \<open>n\<close> and every partial assignment \<open>P\<close> that is a complete valid
  solution (\<open>n\<close> entries, one for each row of the board, no two attacking each other),
  \<^verbatim>\<open>solve\<close> returns \<open>P\<close> itself, whatever the random draws.
\<close>

theorem solve_returns_complete_solution:
  assumes "int (length P) = n" and "set (map fst P) = set (py_range n)" and "is_valid_solution P"
  shows "solve n P rnd = Solution P"
proof -
  have keys: "\<forall>r \<in> set (py_range n). has_key r P"
    using assms(2) by (simp add: has_key_def)
  have "card (set (map fst P)) = length (map fst P)"
    using assms(1,2) distinct_card [OF distinct_py_range, of n] by (simp add: length_py_range)
  then have dist: "distinct (map fst P)" by (rule card_distinct)
  show ?thesis
  proof (cases "n \<le> 100")
    case True
    let ?D = "init_domains n P"
    have "revise n i j ?D = (False, ?D)" if "(i, j) \<in> set (all_arcs n)" for i j
    proof -
      from that have i: "i \<in> set (py_range n)" and j: "j \<in> set (py_range n)" and ne: "i \<noteq> j"
        by (simp_all add: all_arcs_iff)
      from i j keys have di: "?D i = [get_item P i]" and dj: "?D j = [get_item P j]"
        by (simp_all add: init_domains_def)
      from i j keys dist have "(i, get_item P i) \<in> set P" and "(j, get_item P j) \<in> set P"
        by (simp_all add: get_item_in)
      from is_valid_solutionD [OF assms(3) this ne]
      show ?thesis by (rule revise_no_attack [OF dj di])
    qed
    then have "ac3 n ?D = (True, ?D)"
      unfolding ac3_def by (intro ac3_loop_no_change) auto
    moreover have "backtrack n P ?D = (Solution P, ?D)"
      using assms(1) by simp
    ultimately show ?thesis
      using True by (simp add: solve_def backtrack_search_def csp_init_complete [OF keys])
  next
    case False
    have "filter (is_conflicted P P) (py_range n) = []"
      using keys by (auto simp: is_conflicted_def filter_empty_conv)
    moreover from False have "0 < nat (n * 100)" by simp
    ultimately have "repair (nat (n * 100)) n P rnd P 0 = Solution P"
    proof -
      assume a: "filter (is_conflicted P P) (py_range n) = []" and b: "0 < nat (n * 100)"
      from b obtain m where "nat (n * 100) = Suc m" by (cases "nat (n * 100)") auto
      with a show ?thesis by (simp add: Let_def)
    qed
    then show ?thesis
      using False by (simp add: solve_def min_conflicts_def seed_rows_fixed [OF keys])
  qed
qed

theorem solve_returns_complete_solution_witness:
  "int (length [(0, 1), (1, 3), (2, 0), (3, 2::int)]) = 4
   \<and> set (map fst [(0, 1), (1, 3), (2, 0), (3::int, 2::int)]) = set (py_range 4)
   \<and> is_valid_solution [(0, 1), (1, 3), (2, 0), (3, 2)]
   \<and> solve 4 [(0, 1), (1, 3), (2, 0), (3, 2)] first_choice = Solution [(0, 1), (1, 3), (2, 0), (3, 2)]"
proof -
  have 1: "int (length [(0, 1), (1, 3), (2, 0), (3, 2::int)]) = 4" by simp
  have 2: "set (map fst [(0, 1), (1, 3), (2, 0), (3::int, 2::int)]) = set (py_range 4)"
    by (auto simp: set_py_range)
  have 3: "is_valid_solution [(0, 1), (1, 3), (2, 0), (3, 2)]" by code_simp
  from solve_returns_complete_solution [OF 1 2 3] 1 2 3 show ?thesis by simp
qed

subsection \<open>A partial assignment that conflicts with itself\<close>

lemma prune_rows_keep_fixed:
  "has_key r P \<Longrightarrow> fold (prune_row n P row col) rows d r = d r"
  by (induction rows arbitrary: d) (auto simp: prune_row_def)

lemma initialize_domains_keeps_fixed:
  assumes "has_key r P"
  shows "fold (prune_for n P) Q d r = d r"
  by (induction Q arbitrary: d) (simp_all add: prune_for_def prune_rows_keep_fixed [OF assms])

lemma csp_init_fixed:
  assumes "has_key r P" and "r \<in> set (py_range n)"
  shows "csp_init n P r = [get_item P r]"
  using assms
  by (simp add: csp_init_def initialize_domains_def initialize_domains_keeps_fixed init_domains_def)

lemma revise_attacked:
  assumes "doms row_j = [cj]" and "doms row_i = [ci]" and "attacks row_i ci row_j cj"
    and "ci = cj \<or> (cj < ci \<and> ci < n) \<or> (ci < cj \<and> 0 \<le> ci)"
  shows "revise n row_i row_j doms = (True, doms(row_i := []))"
  using assms
  by (auto simp: revise_def revise_singleton_def Let_def discard_col_pair attacks_def)

lemma ac3_loop_detects:
  assumes "(r1, r2) \<in> set queue" and "doms r1 = [c1]" and "doms r2 = [c2]"
    and "attacks r1 c1 r2 c2"
    and "c1 = c2 \<or> (c2 < c1 \<and> c1 < n) \<or> (c1 < c2 \<and> 0 \<le> c1)"
  shows "fst (ac3_loop n queue doms) = False"
  using assms(1,2,3,5)
proof (induction n queue doms rule: ac3_loop.induct)
  case (1 n doms)
  then show ?case by simp
next
  case (2 n row_i row_j queue doms)
  note att = assms(4)
  obtain b d' where rv: "revise n row_i row_j doms = (b, d')"
    by (cases "revise n row_i row_j doms")
  show ?case
  proof (cases "(row_i, row_j) = (r1, r2)")
    case True
    then have "revise n row_i row_j doms = (True, doms(row_i := []))"
      using revise_attacked [OF "2.prems"(3) "2.prems"(2) att "2.prems"(4)] by simp
    then show ?thesis by simp
  next
    case False
    with "2.prems"(1) have inq: "(r1, r2) \<in> set queue" by auto
    show ?thesis
    proof (cases b)
      case False
      with revise_frame(4) [OF rv] have "d' = doms" by simp
      with False rv "2.IH"(2) [of "(b, d')" b d'] inq "2.prems"(2,3,4) show ?thesis by simp
    next
      case True
      show ?thesis
      proof (cases "d' row_i = []")
        case True
        with \<open>b\<close> rv show ?thesis by simp
      next
        case ne: False
        from revise_frame(4) [OF rv] True have lt: "length (d' row_i) < length (doms row_i)" by simp
        have i1: "row_i \<noteq> r1"
        proof
          assume "row_i = r1"
          with lt "2.prems"(2) have "d' row_i = []" by simp
          with ne show False by simp
        qed
        have i2: "row_i \<noteq> r2"
        proof
          assume "row_i = r2"
          with lt "2.prems"(3) have "d' row_i = []" by simp
          with ne show False by simp
        qed
        from revise_frame(3) [OF rv] i1 i2 "2.prems"(2,3)
        have "d' r1 = [c1]" and "d' r2 = [c2]" by auto
        with True ne rv "2.IH"(1) [of "(b, d')" b d'] inq "2.prems"(4) show ?thesis by simp
      qed
    qed
  qed
qed


lemma min_conflicts_all_fixed:
  assumes "\<forall>r \<in> set (py_range n). has_key r P" and "0 < max_steps"
  shows "min_conflicts n P doms rnd max_steps = Solution P"
proof -
  have "filter (is_conflicted P P) (py_range n) = []"
    using assms(1) by (auto simp: is_conflicted_def filter_empty_conv)
  moreover from assms(2) obtain m where "nat max_steps = Suc m" by (cases "nat max_steps") auto
  ultimately have "repair (nat max_steps) n P rnd P 0 = Solution P" by (simp add: Let_def)
  then show ?thesis by (simp add: min_conflicts_def seed_rows_fixed [OF assms(1)])
qed

text \<open>
  On the backtracking path (\<open>n \<le> 100\<close>) a partial assignment that fixes two different rows
  of the board at columns that attack each other is reported infeasible, wherever the two
  columns lie: \<^verbatim>\<open>ac3\<close> revises the arc between the two rows through the singleton branch and
  empties the domain of one of them. This is what \<^verbatim>\<open>test_invalid_board\<close> expects of
  \<^verbatim>\<open>NQueensCSP(4, {0: 0, 1: 1}).solve()\<close>.
\<close>

lemma conflicting_partial_assignment_infeasible:
  assumes "n \<le> 100"
    and "has_key r1 P" and "has_key r2 P"
    and "r1 \<in> set (py_range n)" and "r2 \<in> set (py_range n)" and "r1 \<noteq> r2"
    and "attacks r1 (get_item P r1) r2 (get_item P r2)"
  shows "solve n P rnd = NoSolution"
proof -
  let ?D = "csp_init n P"
  let ?c1 = "get_item P r1" and ?c2 = "get_item P r2"
  have d1: "?D r1 = [?c1]" and d2: "?D r2 = [?c2]"
    using assms(2-5) by (simp_all add: csp_init_fixed)
  have q: "(r1, r2) \<in> set (all_arcs n)" "(r2, r1) \<in> set (all_arcs n)"
    using assms(4-6) by (simp_all add: all_arcs_iff)
  have rows: "0 \<le> r1" "r1 < n" "0 \<le> r2" "r2 < n"
    using assms(4,5) by (auto simp: set_py_range)
  have att': "attacks r2 ?c2 r1 ?c1"
    using assms(7) by (auto simp: attacks_def)
  have "(?c1 = ?c2 \<or> (?c2 < ?c1 \<and> ?c1 < n) \<or> (?c1 < ?c2 \<and> 0 \<le> ?c1))
      \<or> (?c2 = ?c1 \<or> (?c1 < ?c2 \<and> ?c2 < n) \<or> (?c2 < ?c1 \<and> 0 \<le> ?c2))"
    using assms(7) rows unfolding attacks_def by linarith
  then have "fst (ac3_loop n (all_arcs n) ?D) = False"
  proof
    assume "?c1 = ?c2 \<or> (?c2 < ?c1 \<and> ?c1 < n) \<or> (?c1 < ?c2 \<and> 0 \<le> ?c1)"
    from ac3_loop_detects [OF q(1) d1 d2 assms(7) this] show ?thesis .
  next
    assume "?c2 = ?c1 \<or> (?c1 < ?c2 \<and> ?c2 < n) \<or> (?c2 < ?c1 \<and> 0 \<le> ?c2)"
    from ac3_loop_detects [OF q(2) d2 d1 att' this] show ?thesis .
  qed
  then have "fst (ac3 n ?D) = False" by (simp add: ac3_def)
  then show ?thesis
    using assms(1) by (auto simp: solve_def backtrack_search_def split: prod.splits)
qed

lemma test_invalid_board: "solve 4 diagonal_pair first_choice = NoSolution"
proof -
  have 1: "(4::int) \<le> 100" by simp
  have 2: "has_key 0 diagonal_pair" and 3: "has_key 1 diagonal_pair" by code_simp+
  have 4: "0 \<in> set (py_range 4)" and 5: "1 \<in> set (py_range 4)" by code_simp+
  have 6: "(0::int) \<noteq> 1" by simp
  have 7: "attacks 0 (get_item diagonal_pair 0) 1 (get_item diagonal_pair 1)" by code_simp
  from conflicting_partial_assignment_infeasible [OF 1 2 3 4 5 6 7]
  show ?thesis .
qed

text \<open>The partial assignment that fixes every row of the board of size 101 at column 0.\<close>

definition first_column :: dict where
  "first_column = map (\<lambda>r. (r, 0)) (py_range 101)"

text \<open>It is what \<^verbatim>\<open>read_input\<close> returns for a file of 101 lines \<^verbatim>\<open>0\<close>.\<close>

lemma first_column_read: "read_input (replicate 101 (Some 0)) = (first_column, 101)"
  by code_simp

text \<open>
  Claim C6: for every \<open>n\<close> and every partial assignment with an internal conflict,
  \<^verbatim>\<open>solve\<close> reports infeasible rather than returning an assignment. The code breaks it
  on the min-conflicts path (\<open>n > 100\<close>): \<^verbatim>\<open>min_conflicts\<close> collects only rows outside
  \<^verbatim>\<open>fixed_rows\<close>, so with all 101 rows fixed in column 0 (a file of 101 lines \<^verbatim>\<open>0\<close>, which
  \<^verbatim>\<open>read_input\<close> accepts) \<^verbatim>\<open>solve\<close> returns that assignment at the first step, although
  rows 0 and 1 share a column. The docstring of \<^verbatim>\<open>solve\<close> promises \<^verbatim>\<open>None\<close> when there is no
  solution, and the backtracking path above does report it.
\<close>

theorem conflicting_fixed_rows_returned:
  "solve 101 first_column first_choice = Solution first_column
   \<and> map_of first_column 0 = Some 0 \<and> map_of first_column 1 = Some 0 \<and> attacks 0 0 1 0"
proof -
  have "\<forall>r \<in> set (py_range 101). has_key r first_column"
    by (auto simp: has_key_def first_column_def image_image)
  then have "solve 101 first_column first_choice = Solution first_column"
    by (simp add: solve_def min_conflicts_all_fixed)
  moreover have "map_of first_column 0 = Some 0" "map_of first_column 1 = Some 0"
    by (simp_all add: first_column_def map_of_map_restrict set_py_range restrict_map_def)
  ultimately show ?thesis by (simp add: attacks_def)
qed

subsection \<open>Columns outside the board\<close>

text \<open>What \<^verbatim>\<open>read_input\<close> keeps of a line: an integer in \<open>[0, n)\<close>.\<close>

definition keep_line :: "int \<Rightarrow> int option \<Rightarrow> int option" where
  "keep_line n line = (case line of Some col \<Rightarrow> if 0 \<le> col \<and> col < n then Some col else None | None \<Rightarrow> None)"

lemma read_input_fold:
  assumes "distinct (map fst es)"
  shows "map_of (fold (\<lambda>(row, line) partial_assignment.
                  case line of
                    Some col \<Rightarrow> if 0 \<le> col \<and> col < n
                                then AList.update row col partial_assignment
                                else partial_assignment
                  | None \<Rightarrow> partial_assignment) es acc) r
         = (case map_of es r of
              Some line \<Rightarrow> (case keep_line n line of Some c \<Rightarrow> Some c | None \<Rightarrow> map_of acc r)
            | None \<Rightarrow> map_of acc r)"
  using assms
proof (induction es arbitrary: acc)
  case Nil
  show ?case by simp
next
  case (Cons e es)
  obtain k line where e: "e = (k, line)" by (cases e)
  from Cons.prems e have k: "k \<notin> fst ` set es" and d: "distinct (map fst es)" by auto
  from k have none: "map_of es k = None" by (simp add: map_of_eq_None_iff)
  show ?case
  proof (cases "r = k")
    case True
    with e none have e': "e = (r, line)" and none': "map_of es r = None" by simp_all
    show ?thesis
      by (simp add: e' none' Cons.IH [OF d] keep_line_def update_conv' split: option.splits)
  next
    case False
    then show ?thesis
      by (simp add: e Cons.IH [OF d] keep_line_def update_conv' split: option.splits)
  qed
qed

lemma map_of_enumerate:
  "map_of (zip (map int [0..<length xs]) xs) r
   = (if 0 \<le> r \<and> r < int (length xs) then Some (xs ! nat r) else None)"
proof (cases "0 \<le> r \<and> r < int (length xs)")
  case True
  let ?ks = "map int [0..<length xs]"
  have "map_of (zip ?ks xs) (?ks ! nat r) = Some (xs ! nat r)"
    by (rule map_of_zip_nth) (use True in \<open>auto simp: distinct_map inj_on_def\<close>)
  moreover have "nat r < length xs" using True by linarith
  then have "?ks ! nat r = r" using True by simp
  ultimately show ?thesis using True by simp
next
  case False
  have "r \<notin> set (map int [0..<length xs])" using False by auto
  then have "map_of (zip (map int [0..<length xs]) xs) r = None"
    by (subst map_of_zip_is_None) simp_all
  with False show ?thesis by presburger
qed

lemma read_input_map:
  "map_of (fst (read_input lines)) r
   = (if 0 \<le> r \<and> r < int (length lines) then keep_line (int (length lines)) (lines ! nat r) else None)"
proof -
  have d: "distinct (map fst (zip (map int [0..<length lines]) lines))"
    by (simp add: distinct_map inj_on_def)
  show ?thesis
    unfolding read_input_def Let_def fst_conv read_input_fold [OF d] map_of_enumerate
    by (simp split: option.splits)
qed

text \<open>The dictionaries of a search on a board: different keys, all rows of the board.\<close>

definition board_dict :: "int \<Rightarrow> dict \<Rightarrow> bool" where
  "board_dict n assignment =
     (distinct (map fst assignment) \<and> list_all (\<lambda>r. 0 \<le> r \<and> r < n) (map fst assignment))"

lemma board_dict_update:
  assumes "board_dict n assignment" and "row \<in> set (py_range n)"
  shows "board_dict n (AList.update row col assignment)"
  using assms
  by (auto simp: board_dict_def distinct_update list_all_iff dom_update set_py_range)

lemma board_dict_select:
  assumes "board_dict n assignment" and "int (length assignment) \<noteq> n" and "0 \<le> n"
  shows "select_unassigned_variable n assignment doms \<noteq> None"
proof -
  have "\<exists>r \<in> set (py_range n). \<not> has_key r assignment"
  proof (rule ccontr)
    assume "\<not> (\<exists>r \<in> set (py_range n). \<not> has_key r assignment)"
    then have "set (py_range n) \<subseteq> set (map fst assignment)" by (auto simp: has_key_def)
    moreover have "set (map fst assignment) \<subseteq> set (py_range n)"
      using assms(1) by (auto simp: board_dict_def list_all_iff set_py_range)
    ultimately have "set (map fst assignment) = set (py_range n)" by auto
    then have "card (set (map fst assignment)) = card (set (py_range n))" by simp
    moreover have "card (set (map fst assignment)) = length (map fst assignment)"
      by (rule distinct_card) (use assms(1) in \<open>simp add: board_dict_def\<close>)
    moreover have "card (set (py_range n)) = length (py_range n)"
      by (rule distinct_card) (rule distinct_py_range)
    ultimately have "length (map fst assignment) = length (py_range n)" by simp
    with assms(2,3) show False by (simp add: length_py_range)
  qed
  then have "filter (\<lambda>row. \<not> has_key row assignment) (py_range n) \<noteq> []"
    by (auto simp: filter_empty_conv)
  then show ?thesis
    by (auto simp: select_unassigned_variable_def split: list.splits)
qed

lemma backtrack_no_error:
  shows "board_dict n assignment \<Longrightarrow> 0 \<le> n \<Longrightarrow> fst (backtrack n assignment doms) \<noteq> ValueError"
    and "board_dict n assignment \<Longrightarrow> 0 \<le> n \<Longrightarrow> row \<in> set (py_range n)
         \<Longrightarrow> fst (try_values n row cols assignment doms) \<noteq> ValueError"
proof (induction n assignment doms and n row cols assignment doms rule: backtrack_induct)
  case (backtrack n assignment doms)
  show ?case
  proof (cases "int (length assignment) = n")
    case True
    then show ?thesis by simp
  next
    case False
    from board_dict_select [OF backtrack.prems(1) False backtrack.prems(2)]
    obtain row where sel: "select_unassigned_variable n assignment doms = Some row" by auto
    from select_unassigned_variable_Some(1) [OF sel]
      backtrack.IH [OF False sel backtrack.prems]
    show ?thesis using False sel by simp
  qed
next
  case (no_values n row assignment doms)
  show ?case by simp
next
  case (try_value n row col cols assignment doms)
  let ?asg = "AList.update row col assignment"
  note prems = try_value.prems
  have bd: "board_dict n ?asg" using prems(1,3) by (rule board_dict_update)
  show ?case
  proof (cases "is_consistent row col assignment")
    case False
    then have eq: "try_values n row (col # cols) assignment doms = try_values n row cols assignment doms"
      by (simp add: try_values_Cons del: try_values.simps)
    from try_value.IH(4) [OF False prems] show ?thesis unfolding eq .
  next
    case True
    obtain ok doms1 lp where fc: "forward_check n row col ?asg doms [] = (ok, doms1, lp)"
      by (cases "forward_check n row col ?asg doms []")
    show ?thesis
    proof (cases ok)
      case False
      with fc have fcF: "forward_check n row col ?asg doms [] = (False, doms1, lp)" by simp
      with True have eq: "try_values n row (col # cols) assignment doms
          = try_values n row cols assignment (restore lp doms1)"
        by (simp add: try_values_Cons del: try_values.simps)
      from try_value.IH(3) [OF True fcF prems] show ?thesis unfolding eq .
    next
      case ok: True
      with fc have fcT: "forward_check n row col ?asg doms [] = (True, doms1, lp)" by simp
      obtain res doms2 where bt: "backtrack n ?asg doms1 = (res, doms2)"
        by (cases "backtrack n ?asg doms1")
      from try_value.IH(1) [OF True fcT bd prems(2)] bt have nv: "res \<noteq> ValueError" by simp
      show ?thesis
      proof (cases "res = NoSolution")
        case False
        with True fcT bt have "try_values n row (col # cols) assignment doms = (res, doms2)"
          by (simp add: try_values_Cons del: try_values.simps)
        with nv show ?thesis by simp
      next
        case res: True
        with bt have btN: "backtrack n ?asg doms1 = (NoSolution, doms2)" by simp
        with True fcT have eq: "try_values n row (col # cols) assignment doms
            = try_values n row cols assignment (restore lp doms2)"
          by (simp add: try_values_Cons del: try_values.simps)
        from try_value.IH(2) [OF True fcT btN prems] show ?thesis unfolding eq .
      qed
    qed
  qed
qed

lemma repair_no_error: "repair steps n P rnd assignment k \<noteq> ValueError"
  by (induction steps arbitrary: assignment k) (simp_all add: Let_def)

lemma solve_no_error:
  assumes "0 \<le> n" and "board_dict n P"
  shows "solve n P rnd \<noteq> ValueError"
proof (cases "n \<le> 100")
  case True
  obtain b d where a: "ac3 n (csp_init n P) = (b, d)" by (cases "ac3 n (csp_init n P)")
  show ?thesis
    using True a backtrack_no_error(1) [OF assms(2,1), of d]
    by (cases b) (simp_all add: solve_def backtrack_search_def)
next
  case False
  then show ?thesis
    by (simp add: solve_def min_conflicts_def repair_no_error split: prod.splits)
qed

text \<open>
  Claim C3, as stated: the core solver treats a row whose column lies outside \<open>[0, n)\<close>
  as unassigned, so that \<^verbatim>\<open>solve\<close> behaves as if the row were absent. It does not:
  \<^verbatim>\<open>__init__\<close> makes \<open>{-1}\<close> the domain of row 0, and the solution keeps row 0 at
  column -1, where without the entry row 0 goes to column 1.
\<close>

theorem out_of_range_column_stays_fixed:
  "solve 4 [(0, - 1)] first_choice = Solution [(0, - 1), (2, 0), (3, 3), (1, 2)]
   \<and> solve 4 [] first_choice = Solution [(0, 1), (1, 3), (2, 0), (3, 2)]"
  by code_simp

text \<open>
  Claim C3, amended: \<^verbatim>\<open>read_input\<close> drops every line that is not an integer in
  \<open>[0, n)\<close>, \<open>n\<close> the number of lines, so that such a row reaches the solver as a free
  row; the solver keeps every row it is given at the column it is given, in range or not;
  and for \<open>n \<ge> 0\<close> and a partial assignment whose rows lie on the board, \<^verbatim>\<open>solve\<close>
  raises no error.
\<close>

theorem out_of_range_columns_dropped_by_read_input:
  "map_of (fst (read_input lines)) r
     = (if 0 \<le> r \<and> r < int (length lines) then keep_line (int (length lines)) (lines ! nat r) else None)
   \<and> snd (read_input lines) = int (length lines)
   \<and> (solve n P rnd = Solution A \<longrightarrow> has_key r P \<longrightarrow> map_of A r = map_of P r)
   \<and> (0 \<le> n \<longrightarrow> board_dict n P \<longrightarrow> solve n P rnd \<noteq> ValueError)"
proof -
  have "map_of A r = map_of P r" if "solve n P rnd = Solution A" and "has_key r P"
    using that backtrack_search_keeps_fixed [of n P "csp_init n P" A r]
      min_conflicts_keeps_fixed [of n P "csp_init n P" rnd "n * 100" A r]
    by (simp add: solve_def Let_def split: if_splits)
  moreover have "snd (read_input lines) = int (length lines)"
    by (simp add: read_input_def Let_def)
  ultimately show ?thesis
    using read_input_map [of lines r] solve_no_error [of n P rnd] by blast
qed

theorem out_of_range_columns_dropped_by_read_input_witness:
  "read_input [Some 0, None, Some (- 5), Some 3] = ([(0, 0), (3, 3)], 4)
   \<and> map_of (fst (read_input [Some 0, None, Some (- 5), Some 3])) 2 = None
   \<and> solve 4 [(0, - 1)] first_choice = Solution [(0, - 1), (2, 0), (3, 3), (1, 2)]
   \<and> has_key 0 [(0, - 1)]
   \<and> map_of [(0, - 1), (2, 0), (3, 3), (1, 2)] (0::int) = map_of [(0::int, - 1::int)] 0
   \<and> (0::int) \<le> 4 \<and> board_dict 4 [(0, - 1)]
   \<and> solve 4 [(0, - 1)] first_choice \<noteq> ValueError"
proof -
  have 1: "read_input [Some 0, None, Some (- 5), Some 3] = ([(0, 0), (3, 3)], 4)" by code_simp
  have 2: "solve 4 [(0, - 1)] first_choice = Solution [(0, - 1), (2, 0), (3, 3), (1, 2)]" by code_simp
  have 3: "has_key 0 [(0, - 1)]" by code_simp
  have 4: "board_dict 4 [(0, - 1)]" by code_simp
  have 5: "(0::int) \<le> 4" by simp
  from out_of_range_columns_dropped_by_read_input
    [of "[Some 0, None, Some (- 5), Some 3]" 2 4 "[(0, - 1)]" first_choice
        "[(0, - 1), (2, 0), (3, 3), (1, 2)]"]
  have "map_of (fst (read_input [Some 0, None, Some (- 5), Some 3])) 2 = None"
    by (simp add: keep_line_def)
  moreover
  from out_of_range_columns_dropped_by_read_input
    [of "[Some 0, None, Some (- 5), Some 3]" 0 4 "[(0, - 1)]" first_choice
        "[(0, - 1), (2, 0), (3, 3), (1, 2)]"] 2 3 4 5
  have "map_of [(0, - 1), (2, 0), (3, 3), (1, 2)] (0::int) = map_of [(0::int, - 1::int)] 0"
    and "solve 4 [(0, - 1)] first_choice \<noteq> ValueError" by simp_all
  ultimately show ?thesis using 1 2 3 4 5 by simp
qed

subsection \<open>The empty board: what a returned assignment satisfies\<close>

lemma attacks_sym: "attacks r1 c1 r2 c2 = attacks r2 c2 r1 c1"
  by (auto simp: attacks_def)

lemma update_new_key: "\<not> has_key row assignment \<Longrightarrow> AList.update row col assignment = assignment @ [(row, col)]"
  by (induction assignment) (auto simp: has_key_def)

lemma is_valid_solution_iff:
  "is_valid_solution A \<longleftrightarrow>
     (\<forall>(r1, c1) \<in> set A. \<forall>(r2, c2) \<in> set A. r1 \<noteq> r2 \<longrightarrow> \<not> attacks r1 c1 r2 c2)"
  by (auto simp: is_valid_solution_def list_all_iff)

lemma is_valid_solution_commit:
  assumes "is_valid_solution assignment" and "is_consistent row col assignment"
    and "\<not> has_key row assignment"
  shows "is_valid_solution (AList.update row col assignment)"
proof -
  have c: "\<forall>(r, c) \<in> set assignment. \<not> attacks r c row col"
    using assms(2) by (auto simp: is_consistent_def list_all_iff)
  then have c': "\<forall>(r, c) \<in> set assignment. \<not> attacks row col r c"
    using attacks_sym by blast
  show ?thesis
    unfolding update_new_key [OF assms(3)] is_valid_solution_iff
    using assms(1) c c' by (auto simp: is_valid_solution_iff)
qed

lemma backtrack_sound:
  shows "board_dict n assignment \<Longrightarrow> is_valid_solution assignment
         \<Longrightarrow> fst (backtrack n assignment doms) = Solution A
         \<Longrightarrow> board_dict n A \<and> is_valid_solution A \<and> int (length A) = n"
    and "board_dict n assignment \<Longrightarrow> is_valid_solution assignment
         \<Longrightarrow> row \<in> set (py_range n) \<Longrightarrow> \<not> has_key row assignment
         \<Longrightarrow> fst (try_values n row cols assignment doms) = Solution A
         \<Longrightarrow> board_dict n A \<and> is_valid_solution A \<and> int (length A) = n"
proof (induction n assignment doms and n row cols assignment doms
       arbitrary: A and A rule: backtrack_induct)
  case (backtrack n assignment doms)
  show ?case
  proof (cases "int (length assignment) = n")
    case True
    with backtrack.prems show ?thesis by simp
  next
    case False
    with backtrack.prems(3) obtain row where sel: "select_unassigned_variable n assignment doms = Some row"
      by (auto split: option.splits)
    with False backtrack.prems(3)
    have "fst (try_values n row (order_domain_values n row assignment doms) assignment doms) = Solution A"
      by simp
    from backtrack.IH [OF False sel backtrack.prems(1,2) select_unassigned_variable_Some [OF sel] this]
    show ?thesis .
  qed
next
  case (no_values n row assignment doms)
  then show ?case by simp
next
  case (try_value n row col cols assignment doms)
  let ?asg = "AList.update row col assignment"
  note prems = try_value.prems
  show ?case
  proof (cases "is_consistent row col assignment")
    case False
    with prems(5) have "fst (try_values n row cols assignment doms) = Solution A"
      by (simp add: try_values_Cons del: try_values.simps)
    from try_value.IH(4) [OF False prems(1-4) this] show ?thesis .
  next
    case True
    have bd: "board_dict n ?asg" using prems(1,3) by (rule board_dict_update)
    have vs: "is_valid_solution ?asg" using prems(2) True prems(4) by (rule is_valid_solution_commit)
    obtain ok doms1 lp where fc: "forward_check n row col ?asg doms [] = (ok, doms1, lp)"
      by (cases "forward_check n row col ?asg doms []")
    show ?thesis
    proof (cases ok)
      case False
      with fc have fcF: "forward_check n row col ?asg doms [] = (False, doms1, lp)" by simp
      with prems(5) True have "fst (try_values n row cols assignment (restore lp doms1)) = Solution A"
        by (simp add: try_values_Cons del: try_values.simps)
      from try_value.IH(3) [OF True fcF prems(1-4) this] show ?thesis .
    next
      case ok: True
      with fc have fcT: "forward_check n row col ?asg doms [] = (True, doms1, lp)" by simp
      obtain res doms2 where bt: "backtrack n ?asg doms1 = (res, doms2)"
        by (cases "backtrack n ?asg doms1")
      show ?thesis
      proof (cases "res = NoSolution")
        case False
        with prems(5) True fcT bt have "fst (backtrack n ?asg doms1) = Solution A"
          by (simp add: try_values_Cons del: try_values.simps)
        from try_value.IH(1) [OF True fcT bd vs this] show ?thesis .
      next
        case res: True
        with bt have btN: "backtrack n ?asg doms1 = (NoSolution, doms2)" by simp
        with prems(5) True fcT
        have "fst (try_values n row cols assignment (restore lp doms2)) = Solution A"
          by (simp add: try_values_Cons del: try_values.simps)
        from try_value.IH(2) [OF True fcT btN prems(1-4) this] show ?thesis .
      qed
    qed
  qed
qed

lemma board_dict_complete:
  assumes "board_dict n A" and "int (length A) = n"
  shows "set (map fst A) = set (py_range n)"
proof -
  have sub: "set (map fst A) \<subseteq> set (py_range n)"
    using assms(1) by (auto simp: board_dict_def list_all_iff set_py_range)
  have "card (set (map fst A)) = length (map fst A)"
    by (rule distinct_card) (use assms(1) in \<open>simp add: board_dict_def\<close>)
  moreover have "card (set (py_range n)) = length (py_range n)"
    by (rule distinct_card) (rule distinct_py_range)
  ultimately have "card (set (map fst A)) = card (set (py_range n))"
    using assms(2) by (simp add: length_py_range)
  with sub show ?thesis by (simp add: card_subset_eq)
qed

lemma keys_update_existing: "has_key row assignment \<Longrightarrow> map fst (AList.update row col assignment) = map fst assignment"
  by (induction assignment) (auto simp: has_key_def)

lemma seed_row_keys:
  "map fst (fst (seed_row n doms rnd row (assignment, k)))
   = (if has_key row assignment then map fst assignment else map fst assignment @ [row])"
  by (simp add: seed_row_def Let_def update_new_key)

lemma seed_rows_keys:
  assumes "distinct rows" and "\<forall>r \<in> set rows. \<not> has_key r assignment"
  shows "map fst (fst (fold (seed_row n doms rnd) rows (assignment, k))) = map fst assignment @ rows"
  using assms
proof (induction rows arbitrary: assignment k)
  case Nil
  then show ?case by simp
next
  case (Cons row rows)
  obtain a1 k1 where st: "seed_row n doms rnd row (assignment, k) = (a1, k1)"
    by (cases "seed_row n doms rnd row (assignment, k)")
  with seed_row_keys [of n doms rnd row assignment k] Cons.prems(2)
  have k1: "map fst a1 = map fst assignment @ [row]" by simp
  then have "\<forall>r \<in> set rows. \<not> has_key r a1"
    using Cons.prems by (auto simp: has_key_def)
  with Cons.IH [of a1 k1] Cons.prems(1) st k1 show ?case by simp
qed

lemma repair_keys:
  assumes "repair steps n P rnd assignment k = Solution A"
    and "\<forall>r \<in> set (py_range n). has_key r assignment"
  shows "map fst A = map fst assignment"
  using assms
proof (induction steps arbitrary: assignment k)
  case 0
  then show ?case by simp
next
  case (Suc steps)
  let ?rows = "filter (is_conflicted P assignment) (py_range n)"
  show ?case
  proof (cases "?rows = []")
    case True
    with Suc.prems(1) show ?thesis by (simp add: Let_def)
  next
    case False
    let ?row = "choice rnd k ?rows"
    let ?best = "best_columns (moved_conflicts assignment ?row) (py_range n)"
    let ?asg = "AList.update ?row (choice rnd (Suc k) ?best) assignment"
    from choice_in [OF False] have "?row \<in> set (py_range n)" by simp
    with Suc.prems(2) have hk: "has_key ?row assignment" by blast
    then have keys: "map fst ?asg = map fst assignment" by (rule keys_update_existing)
    then have "\<forall>r \<in> set (py_range n). has_key r ?asg"
      using Suc.prems(2) by (simp add: has_key_def)
    moreover from Suc.prems(1) False have "repair steps n P rnd ?asg (k + 2) = Solution A"
      by (simp add: Let_def)
    ultimately have "map fst A = map fst ?asg" by (rule Suc.IH [rotated])
    with keys show ?thesis by simp
  qed
qed

lemma count_conflicts_zero:
  "count_conflicts row col assignment = 0
   \<longleftrightarrow> (\<forall>(r, c) \<in> set assignment. r \<noteq> row \<longrightarrow> \<not> attacks r c row col)"
  by (auto simp: count_conflicts_def attacks_def filter_empty_conv)

lemma min_conflicts_empty_sound:
  assumes "min_conflicts n [] doms rnd max_steps = Solution A"
  shows "map fst A = py_range n" and "is_valid_solution A"
proof -
  obtain a k where sd: "fold (seed_row n doms rnd) (py_range n) ([], 0) = (a, k)"
    by (cases "fold (seed_row n doms rnd) (py_range n) ([], 0)")
  have ka: "map fst a = py_range n"
    using seed_rows_keys [OF distinct_py_range, of n "[]" n doms rnd 0] sd
    by (simp add: has_key_def)
  from assms sd have rp: "repair (nat max_steps) n [] rnd a k = Solution A"
    by (simp add: min_conflicts_def)
  from repair_keys [OF rp] ka show keys: "map fst A = py_range n"
    by (simp add: has_key_def)
  have dist: "distinct (map fst A)" unfolding keys by (rule distinct_py_range)
  show "is_valid_solution A"
    unfolding is_valid_solution_iff
  proof (clarify)
    fix r1 c1 r2 c2
    assume 1: "(r1, c1) \<in> set A" and 2: "(r2, c2) \<in> set A" and ne: "r1 \<noteq> r2"
      and att: "attacks r1 c1 r2 c2"
    from 2 have "r2 \<in> set (map fst A)" by force
    then have r2: "r2 \<in> set (py_range n)" by (simp add: keys)
    from 2 dist have "get_item A r2 = c2" by (simp add: get_item_def)
    with repair_no_conflicts [OF rp r2] have "count_conflicts r2 c2 A = 0"
      by (simp add: has_key_def)
    with 1 ne att show False by (auto simp: count_conflicts_zero)
  qed
qed

subsection \<open>The columns that the min-conflicts scans keep\<close>

text \<open>The smallest count seen, starting from \<open>m\<close>.\<close>

fun running_min :: "(int \<Rightarrow> nat) \<Rightarrow> int list \<Rightarrow> nat \<Rightarrow> nat" where
  "running_min f [] m = m"
| "running_min f (c # cs) m = running_min f cs (min (f c) m)"

lemma running_min_le: "running_min f cs m \<le> m"
proof (induction cs arbitrary: m)
  case Nil
  show ?case by simp
next
  case (Cons x cs)
  have "running_min f cs (min (f x) m) \<le> min (f x) m" by (rule Cons)
  then show ?case by simp
qed

lemma running_min_le_elem: "c \<in> set cs \<Longrightarrow> running_min f cs m \<le> f c"
proof (induction cs arbitrary: m)
  case Nil
  then show ?case by simp
next
  case (Cons x cs)
  show ?case
  proof (cases "c = x")
    case True
    have "running_min f cs (min (f x) m) \<le> min (f x) m" by (rule running_min_le)
    with True show ?thesis by simp
  next
    case False
    with Cons show ?thesis by simp
  qed
qed

lemma running_min_attained: "running_min f cs m = m \<or> (\<exists>c \<in> set cs. f c = running_min f cs m)"
proof (induction cs arbitrary: m)
  case Nil
  show ?case by simp
next
  case (Cons x cs)
  from Cons [of "min (f x) m"] show ?case
    by (auto simp: min_def split: if_splits)
qed

lemma running_min_cong:
  "\<forall>c \<in> set cs. f c = g c \<Longrightarrow> running_min f cs m = running_min g cs m"
  by (induction cs arbitrary: m) auto

lemma best_step_Some:
  "best_step f c (Some m, best) =
     (if f c < m then (Some (f c), [c])
      else if f c = m then (Some m, best @ [c]) else (Some m, best))"
  by (simp add: best_step_def Let_def)

lemma best_fold:
  "fold (best_step f) cols (Some m, best)
   = (Some (running_min f cols m),
      (if running_min f cols m < m then [] else best) @ filter (\<lambda>c. f c = running_min f cols m) cols)"
proof (induction cols arbitrary: m best)
  case Nil
  show ?case by simp
next
  case (Cons c cols)
  let ?mu = "running_min f (c # cols) m"
  consider (less) "f c < m" | (eq) "f c = m" | (greater) "m < f c" by linarith
  then show ?case
  proof cases
    case less
    then have mu: "?mu = running_min f cols (f c)" by (simp add: min_def)
    have le: "?mu \<le> f c" unfolding mu by (rule running_min_le)
    have "fold (best_step f) (c # cols) (Some m, best) = fold (best_step f) cols (Some (f c), [c])"
      using less by (simp add: best_step_Some)
    also have "\<dots> = (Some ?mu, (if ?mu < f c then [] else [c]) @ filter (\<lambda>x. f x = ?mu) cols)"
      unfolding mu by (rule Cons.IH)
    also have "(if ?mu < f c then [] else [c]) @ filter (\<lambda>x. f x = ?mu) cols
               = (if ?mu < m then [] else best) @ filter (\<lambda>x. f x = ?mu) (c # cols)"
      using le less by auto
    finally show ?thesis .
  next
    case eq
    then have mu: "?mu = running_min f cols m" by (simp add: min_def)
    have le: "?mu \<le> m" unfolding mu by (rule running_min_le)
    have "fold (best_step f) (c # cols) (Some m, best) = fold (best_step f) cols (Some m, best @ [c])"
      using eq by (simp add: best_step_Some)
    also have "\<dots> = (Some ?mu, (if ?mu < m then [] else best @ [c]) @ filter (\<lambda>x. f x = ?mu) cols)"
      unfolding mu by (rule Cons.IH)
    also have "(if ?mu < m then [] else best @ [c]) @ filter (\<lambda>x. f x = ?mu) cols
               = (if ?mu < m then [] else best) @ filter (\<lambda>x. f x = ?mu) (c # cols)"
      using le eq by auto
    finally show ?thesis .
  next
    case greater
    then have mu: "?mu = running_min f cols m" by (simp add: min_def)
    have le: "?mu \<le> m" unfolding mu by (rule running_min_le)
    have "fold (best_step f) (c # cols) (Some m, best) = fold (best_step f) cols (Some m, best)"
      using greater by (simp add: best_step_Some)
    also have "\<dots> = (Some ?mu, (if ?mu < m then [] else best) @ filter (\<lambda>x. f x = ?mu) cols)"
      unfolding mu by (rule Cons.IH)
    also have "filter (\<lambda>x. f x = ?mu) cols = filter (\<lambda>x. f x = ?mu) (c # cols)"
      using le greater by auto
    finally show ?thesis .
  qed
qed

lemma best_columns_Cons:
  "best_columns f (c # cols) = filter (\<lambda>x. f x = running_min f cols (f c)) (c # cols)"
proof -
  have le: "running_min f cols (f c) \<le> f c" by (rule running_min_le)
  have "fold (best_step f) (c # cols) (None, []) = fold (best_step f) cols (Some (f c), [c])"
    by (simp add: best_step_def Let_def)
  then show ?thesis
    unfolding best_columns_def best_fold using le by auto
qed

lemma best_columns_subset: "set (best_columns f cols) \<subseteq> set cols"
proof (cases cols)
  case Nil
  then show ?thesis by (simp add: best_columns_def)
next
  case (Cons c cs)
  show ?thesis unfolding Cons best_columns_Cons by auto
qed

lemma best_columns_nonempty: "cols \<noteq> [] \<Longrightarrow> best_columns f cols \<noteq> []"
proof (cases cols)
  case Nil
  then show "cols \<noteq> [] \<Longrightarrow> ?thesis" by simp
next
  case (Cons c cs)
  from running_min_attained [of f cs "f c"]
  have "\<exists>x \<in> set (c # cs). f x = running_min f cs (f c)" by auto
  then show ?thesis
    unfolding Cons best_columns_Cons by (auto simp: filter_empty_conv)
qed

lemma best_columns_zero:
  assumes "t \<in> set cols" and "f t = 0"
  shows "t \<in> set (best_columns f cols)"
proof -
  from assms(1) obtain c cs where cols: "cols = c # cs" by (cases cols) auto
  have "running_min f cs (f c) \<le> f t"
    using assms(1) running_min_le_elem [of t cs f "f c"] running_min_le [of f cs "f c"]
    by (auto simp: cols)
  with assms(2) have "running_min f cs (f c) = f t" by simp
  with assms(1) show ?thesis unfolding cols best_columns_Cons by auto
qed

lemma best_columns_cong:
  assumes "\<forall>c \<in> set cols. f c = g c"
  shows "best_columns f cols = best_columns g cols"
proof (cases cols)
  case Nil
  then show ?thesis by (simp add: best_columns_def)
next
  case (Cons c cs)
  from assms Cons have "running_min f cs (f c) = running_min g cs (g c)"
    using running_min_cong [of cs f g "f c"] by simp
  with assms show ?thesis
    unfolding Cons best_columns_Cons by (auto intro: filter_cong)
qed

subsection \<open>A run of min-conflicts that exhausts its budget\<close>

lemma count_conflicts_own_row:
  "count_conflicts row col (assignment @ [(row, c)]) = count_conflicts row col assignment"
  by (simp add: count_conflicts_def)

lemma last_filter: "xs \<noteq> [] \<Longrightarrow> P (last xs) \<Longrightarrow> last (filter P xs) = last xs"
  by (induction xs) (auto simp: filter_empty_conv)

lemma choice_last:
  assumes "rnd k xs = length xs - 1" and "xs \<noteq> []"
  shows "choice rnd k xs = last xs"
  using assms by (simp add: choice_def last_conv_nth)

lemma update_last_entry:
  "\<not> has_key row assignment \<Longrightarrow> AList.update row col (assignment @ [(row, c)]) = assignment @ [(row, col)]"
  by (induction assignment) (auto simp: has_key_def)

lemma get_item_last_entry:
  "\<not> has_key row assignment \<Longrightarrow> get_item (assignment @ [(row, c)]) row = c"
proof -
  assume "\<not> has_key row assignment"
  then have "map_of assignment row = None"
    by (simp add: has_key_def map_of_eq_None_iff)
  then show ?thesis by (simp add: get_item_def map_add_def)
qed

text \<open>A generator that keeps a conflicted last row where it is.\<close>

lemma repair_stuck:
  assumes free: "\<not> has_key row assignment"
    and rows: "py_range n \<noteq> []" "last (py_range n) = row"
    and all: "\<forall>col \<in> set (py_range n). 0 < seed_conflicts assignment row col"
    and c: "c = last (best_columns (seed_conflicts assignment row) (py_range n))"
    and rnd: "\<forall>j xs. K \<le> j \<longrightarrow> rnd j xs = length xs - 1"
    and k: "K \<le> k"
  shows "repair steps n [] rnd (assignment @ [(row, c)]) k = NoSolution"
  using k
proof (induction steps arbitrary: k)
  case 0
  show ?case by simp
next
  case (Suc steps)
  let ?asg = "assignment @ [(row, c)]"
  let ?best = "best_columns (seed_conflicts assignment row) (py_range n)"
  let ?rows = "filter (is_conflicted [] ?asg) (py_range n)"
  have bne: "?best \<noteq> []" using rows(1) by (rule best_columns_nonempty)
  then have "c \<in> set ?best" unfolding c by simp
  then have cin: "c \<in> set (py_range n)" using best_columns_subset by blast
  have "count_conflicts row (get_item ?asg row) ?asg = seed_conflicts assignment row c"
    by (simp add: get_item_last_entry [OF free] count_conflicts_own_row seed_conflicts_def)
  with all cin have conf: "is_conflicted [] ?asg row"
    by (simp add: is_conflicted_def has_key_def)
  moreover have "row \<in> set (py_range n)" using rows last_in_set by metis
  ultimately have "row \<in> set ?rows" by simp
  then have rne: "?rows \<noteq> []" by (metis empty_iff list.set(1))
  have lastrow: "last ?rows = row"
    using last_filter [OF rows(1), of "is_conflicted [] ?asg"] conf rows(2) by simp
  have pick_row: "choice rnd k ?rows = row"
    using choice_last [OF _ rne, of rnd k] rnd Suc.prems lastrow by simp
  have "moved_conflicts ?asg row col = seed_conflicts assignment row col" for col
    by (simp add: moved_conflicts_def seed_conflicts_def update_last_entry [OF free]
        count_conflicts_own_row)
  then have best: "best_columns (moved_conflicts ?asg row) (py_range n) = ?best"
    by (intro best_columns_cong) simp
  have pick_col: "choice rnd (Suc k) ?best = c"
    using choice_last [OF _ bne, of rnd "Suc k"] rnd Suc.prems c by simp
  have same: "AList.update row c ?asg = ?asg"
    by (rule update_last_entry [OF free])
  have "repair (Suc steps) n [] rnd ?asg k = repair steps n [] rnd ?asg (k + 2)"
    using rne by (simp add: Let_def pick_row best pick_col same)
  also have "\<dots> = NoSolution"
    by (rule Suc.IH) (use Suc.prems in simp)
  finally show ?case .
qed


text \<open>The position of the first occurrence of a value.\<close>

fun index_of :: "int \<Rightarrow> int list \<Rightarrow> nat" where
  "index_of v [] = 0"
| "index_of v (x # xs) = (if x = v then 0 else Suc (index_of v xs))"

lemma index_of_nth: "v \<in> set xs \<Longrightarrow> index_of v xs < length xs \<and> xs ! index_of v xs = v"
  by (induction xs) auto

text \<open>Draw \<open>k\<close>, for \<open>k < 101\<close>, takes column \<open>2k mod 101\<close> when it is offered; later draws
  take the last element.\<close>

definition stubborn :: rng where
  "stubborn k xs = (if k < 101 then index_of ((2 * int k) mod 101) xs else length xs - 1)"

definition staircase :: "nat \<Rightarrow> dict" where
  "staircase m = map (\<lambda>r. (int r, (2 * int r) mod 101)) [0..<m]"

lemma choice_stubborn:
  assumes "k < 101" and "(2 * int k) mod 101 \<in> set xs"
  shows "choice stubborn k xs = (2 * int k) mod 101"
  using assms index_of_nth [OF assms(2)] by (simp add: choice_def stubborn_def)

lemma double_mod:
  fixes r :: int
  assumes "0 \<le> r" and "r \<le> 100"
  shows "(2 * r) mod 101 = (if r \<le> 50 then 2 * r else 2 * r - 101)"
proof (cases "r \<le> 50")
  case True
  then have "(2 * r) mod 101 = 2 * r" using assms by (intro mod_pos_pos_trivial) auto
  with True show ?thesis by simp
next
  case False
  have "(2 * r) mod 101 = (2 * r - 101) mod 101" by (simp only: minus_mod_self2)
  also have "\<dots> = 2 * r - 101" using False assms by (intro mod_pos_pos_trivial) auto
  finally show ?thesis using False by simp
qed

lemma staircase_no_attack:
  fixes r m :: int
  assumes "0 \<le> r" and "r < m" and "m \<le> 100"
  shows "\<not> attacks r ((2 * r) mod 101) m ((2 * m) mod 101)"
proof -
  have ra: "(2 * r) mod 101 = (if r \<le> 50 then 2 * r else 2 * r - 101)"
    and rb: "(2 * m) mod 101 = (if m \<le> 50 then 2 * m else 2 * m - 101)"
    using assms by (simp_all add: double_mod)
  consider (low) "m \<le> 50" | (mixed) "r \<le> 50" "50 < m" | (high) "50 < r" using assms by linarith
  then show ?thesis
  proof cases
    case low
    with assms have "r \<le> 50" by simp
    with low ra rb have "(2 * r) mod 101 = 2 * r" "(2 * m) mod 101 = 2 * m" by simp_all
    then show ?thesis unfolding attacks_def using assms by auto
  next
    case mixed
    with ra rb have e: "(2 * r) mod 101 = 2 * r" "(2 * m) mod 101 = 2 * m - 101" by simp_all
    have "\<not> (2 * r = 2 * m - 101 \<or> \<bar>r - m\<bar> = \<bar>2 * r - (2 * m - 101)\<bar>)"
      using assms by presburger
    then show ?thesis unfolding attacks_def e .
  next
    case high
    with assms have "50 < m" by simp
    with high ra rb have "(2 * r) mod 101 = 2 * r - 101" "(2 * m) mod 101 = 2 * m - 101" by simp_all
    then show ?thesis unfolding attacks_def using assms by auto
  qed
qed

lemma staircase_covers:
  fixes c :: int
  assumes "0 \<le> c" and "c < 102"
  shows "\<exists>r. 0 \<le> r \<and> r < 101 \<and> attacks r ((2 * r) mod 101) 101 c"
proof -
  consider "c = 101" | "c \<le> 100" "even c" | "c \<le> 100" "odd c" using assms by fastforce
  then show ?thesis
  proof cases
    case 1
    then have "attacks 0 ((2 * 0) mod 101) 101 c" by (simp add: attacks_def)
    then show ?thesis by (intro exI [of _ 0]) simp
  next
    case 2
    define r where "r = c div 2"
    have r: "0 \<le> r" "r \<le> 50" "2 * r = c" using 2 assms unfolding r_def by presburger+
    then have "(2 * r) mod 101 = c" by (simp add: double_mod)
    then have "attacks r ((2 * r) mod 101) 101 c" by (simp add: attacks_def)
    with r show ?thesis by (intro exI [of _ r]) simp
  next
    case 3
    define r where "r = (c + 101) div 2"
    have r: "51 \<le> r" "r \<le> 100" "2 * r - 101 = c" using 3 assms unfolding r_def by presburger+
    then have "(2 * r) mod 101 = c" by (simp add: double_mod)
    then have "attacks r ((2 * r) mod 101) 101 c" by (simp add: attacks_def)
    with r show ?thesis by (intro exI [of _ r]) simp
  qed
qed


text \<open>The seeding of the board of size 102 under \<^const>\<open>stubborn\<close>: rows 0 to 100 go to the
  columns of a solution of the board of size 101, which attack every square of row 101.\<close>

lemma csp_init_empty: "csp_init n [] = init_domains n []"
  by (simp add: csp_init_def initialize_domains_def)

lemma init_domains_empty: "row \<in> set (py_range n) \<Longrightarrow> init_domains n [] row = py_range n"
  by (simp add: init_domains_def has_key_def)

lemma staircase_Suc: "staircase (Suc m) = staircase m @ [(int m, (2 * int m) mod 101)]"
  by (simp add: staircase_def)

lemma staircase_keys: "has_key r (staircase m) \<longleftrightarrow> r \<in> int ` {0..<m}"
  by (auto simp: has_key_def staircase_def image_image)

lemma staircase_entries:
  "(r, c) \<in> set (staircase m) \<longleftrightarrow> 0 \<le> r \<and> r < int m \<and> c = (2 * r) mod 101"
proof
  assume "(r, c) \<in> set (staircase m)"
  then show "0 \<le> r \<and> r < int m \<and> c = (2 * r) mod 101"
    by (auto simp: staircase_def)
next
  assume a: "0 \<le> r \<and> r < int m \<and> c = (2 * r) mod 101"
  then have "nat r \<in> {0..<m}" and "int (nat r) = r" by auto
  with a show "(r, c) \<in> set (staircase m)"
    unfolding staircase_def by (metis (mono_tags, lifting) image_eqI set_map set_upt)
qed

lemma seed_staircase:
  assumes "m \<le> 101"
  shows "fold (seed_row 102 (csp_init 102 []) stubborn) (map int [0..<m]) ([], 0) = (staircase m, m)"
  using assms
proof (induction m)
  case 0
  show ?case by (simp add: staircase_def)
next
  case (Suc m)
  let ?row = "int m"
  let ?t = "(2 * int m) mod 101"
  let ?f = "seed_conflicts (staircase m) ?row"
  from Suc.prems have m: "m < 101" by simp
  then have row: "?row \<in> set (py_range 102)" by (simp add: set_py_range)
  have free: "\<not> has_key ?row (staircase m)" by (auto simp: staircase_keys)
  have cols: "csp_init 102 [] ?row = py_range 102"
    using row by (simp add: csp_init_empty init_domains_empty)
  have ne: "py_range 102 \<noteq> []" by (simp add: py_range_def)
  have t: "?t \<in> set (py_range 102)" by (simp add: set_py_range)
  have "\<not> attacks r c ?row ?t" if "(r, c) \<in> set (staircase m)" for r c
  proof -
    from that have "0 \<le> r" "r < int m" "c = (2 * r) mod 101" by (simp_all add: staircase_entries)
    with staircase_no_attack [of r "int m"] m show ?thesis by simp
  qed
  then have "?f ?t = 0"
    unfolding seed_conflicts_def count_conflicts_zero by auto
  with t have "?t \<in> set (best_columns ?f (py_range 102))" by (rule best_columns_zero)
  with m have pick: "choice stubborn m (best_columns ?f (py_range 102)) = ?t"
    by (rule choice_stubborn)
  have "seed_row 102 (csp_init 102 []) stubborn ?row (staircase m, m) = (staircase (Suc m), Suc m)"
    using free ne by (simp add: seed_row_def cols Let_def pick update_new_key staircase_Suc)
  with Suc.IH m show ?case by simp
qed

text \<open>
  Claim C1, as stated: for every \<open>n \<ge> 4\<close>, \<^verbatim>\<open>solve\<close> on the empty board returns a complete
  assignment without conflicts and never reports infeasible, also for \<open>n > 100\<close>. For
  \<open>n = 102\<close> there are random draws for which it reports failure: the seeding leaves
  row 101 in conflict wherever it stands, and every repair step draws row 101 and puts it
  back on the column it has, until the 10200 steps are used up.
\<close>

theorem min_conflicts_can_fail: "solve 102 [] stubborn = NoSolution"
proof -
  let ?D = "csp_init 102 []"
  let ?f = "seed_conflicts (staircase 101) 101"
  let ?c = "last (best_columns ?f (py_range 102))"
  have "[0..<102] = [0..<101] @ [101::nat]"
    using upt_Suc_append [of 0 101] by simp
  then have rng: "py_range 102 = map int [0..<101] @ [101]"
    by (simp add: py_range_def)
  have ne: "py_range 102 \<noteq> []" and lst: "last (py_range 102) = 101" unfolding rng by simp_all
  have free: "\<not> has_key 101 (staircase 101)" by (auto simp: staircase_keys)
  have cols: "?D 101 = py_range 102"
    by (simp add: csp_init_empty init_domains_empty set_py_range)
  have bne: "best_columns ?f (py_range 102) \<noteq> []" using ne by (rule best_columns_nonempty)
  have pick: "choice stubborn 101 (best_columns ?f (py_range 102)) = ?c"
    using choice_last [OF _ bne, of stubborn 101] by (simp add: stubborn_def)
  have "seed_row 102 ?D stubborn 101 (staircase 101, 101) = (staircase 101 @ [(101, ?c)], 102)"
    using free ne by (simp add: seed_row_def cols Let_def pick update_new_key)
  then have seed: "fold (seed_row 102 ?D stubborn) (py_range 102) ([], 0)
                   = (staircase 101 @ [(101, ?c)], 102)"
    unfolding rng using seed_staircase [of 101] by simp
  have all: "\<forall>col \<in> set (py_range 102). 0 < ?f col"
  proof
    fix col assume "col \<in> set (py_range 102)"
    then have "0 \<le> col" "col < 102" by (simp_all add: set_py_range)
    from staircase_covers [OF this] obtain r
      where r: "0 \<le> r" "r < 101" "attacks r ((2 * r) mod 101) 101 col" by blast
    then have "(r, (2 * r) mod 101) \<in> set (staircase 101)" by (simp add: staircase_entries)
    with r have "?f col \<noteq> 0"
      unfolding seed_conflicts_def count_conflicts_zero by force
    then show "0 < ?f col" by simp
  qed
  have rnd: "\<forall>j xs. 101 \<le> j \<longrightarrow> stubborn j xs = length xs - 1"
    by (simp add: stubborn_def)
  have "repair (nat (102 * 100)) 102 [] stubborn (staircase 101 @ [(101, ?c)]) 102 = NoSolution"
    by (rule repair_stuck [OF free ne lst all refl rnd]) simp
  then show ?thesis
    by (simp add: solve_def min_conflicts_def seed)
qed


lemma solve_empty_sound:
  assumes "solve n [] rnd = Solution A"
  shows "int (length A) = n \<and> set (map fst A) = set (py_range n) \<and> is_valid_solution A"
proof (cases "n \<le> 100")
  case True
  obtain b d where a: "ac3 n (csp_init n []) = (b, d)" by (cases "ac3 n (csp_init n [])")
  with assms True have bt: "fst (backtrack n [] d) = Solution A"
    by (cases b) (simp_all add: solve_def backtrack_search_def)
  have "board_dict n []" and "is_valid_solution []"
    by (simp_all add: board_dict_def is_valid_solution_def)
  from backtrack_sound(1) [OF this bt] board_dict_complete [of n A] show ?thesis by simp
next
  case False
  with assms have "min_conflicts n [] (csp_init n []) rnd (n * 100) = Solution A"
    by (simp add: solve_def)
  from min_conflicts_empty_sound [OF this] have k: "map fst A = py_range n"
    and v: "is_valid_solution A" .
  from k have "length A = length (py_range n)" by (metis length_map)
  with False have "int (length A) = n" by (simp add: length_py_range)
  with k v show ?thesis by simp
qed

subsection \<open>The empty board: the search finds a placement when there is one\<close>

text \<open>A placement \<open>S\<close> of one queen in every row of the board without conflicts.\<close>

definition placement :: "int \<Rightarrow> (int \<Rightarrow> int) \<Rightarrow> bool" where
  "placement n S =
     (\<forall>i \<in> set (py_range n). \<forall>j \<in> set (py_range n). i \<noteq> j \<longrightarrow> \<not> attacks i (S i) j (S j))"

lemma placementD:
  "placement n S \<Longrightarrow> i \<in> set (py_range n) \<Longrightarrow> j \<in> set (py_range n) \<Longrightarrow> i \<noteq> j
   \<Longrightarrow> \<not> attacks i (S i) j (S j)"
  by (simp add: placement_def)

lemma set_order_domain_values: "set (order_domain_values n row assignment doms) = set (doms row)"
proof -
  have "map fst (map (lcv_pair n row assignment doms) (doms row)) = doms row"
    by (induction "doms row") (simp_all add: lcv_pair_def comp_def map_idI)
  then have "set (map fst (map (lcv_pair n row assignment doms) (doms row))) = set (doms row)"
    by simp
  then show ?thesis
    unfolding order_domain_values_def set_map set_sort .
qed

lemma discard_col_keeps:
  assumes "v \<in> set (snd st row_i)" and "v \<noteq> col"
  shows "v \<in> set (snd (discard_col guard row_i col st) row_i)"
  using assms by (cases st) (simp add: discard_col_pair)

lemma revise_singleton_keeps:
  assumes "doms row_j = [w]" and "v \<in> set (doms row_i)" and "\<not> attacks row_i v row_j w"
  shows "v \<in> set (snd (revise_singleton n row_i row_j doms) row_i)"
proof -
  from assms(3) have "v \<noteq> w" "v \<noteq> w + \<bar>row_i - row_j\<bar>" "v \<noteq> w - \<bar>row_i - row_j\<bar>"
    by (auto simp: attacks_def)
  then show ?thesis
    unfolding revise_singleton_def Let_def assms(1) list.sel
    by (intro discard_col_keeps) (simp_all add: assms(2))
qed

lemma revise_general_fold_keeps:
  assumes "row_i \<noteq> row_j" and "w \<in> set (d0 row_j)" and "\<not> attacks row_i v row_j w"
    and "v \<in> set (d0 row_i)"
  shows "v \<in> set (snd (fold (revise_value row_i row_j) xs (b, d0)) row_i)"
  using assms(2,4)
proof (induction xs arbitrary: b d0)
  case Nil
  then show ?case by simp
next
  case (Cons x xs)
  show ?case
  proof (cases "list_all (\<lambda>col_j. \<not> (x \<noteq> col_j \<and> \<bar>row_i - row_j\<bar> \<noteq> \<bar>x - col_j\<bar>)) (d0 row_j)")
    case True
    with Cons.prems(1) have "\<not> (x \<noteq> w \<and> \<bar>row_i - row_j\<bar> \<noteq> \<bar>x - w\<bar>)"
      by (simp add: list_all_iff)
    with assms(3) have "x \<noteq> v" by (auto simp: attacks_def)
    let ?d1 = "d0(row_i := removeAll x (d0 row_i))"
    have "w \<in> set (?d1 row_j)" using Cons.prems(1) assms(1) by simp
    moreover have "v \<in> set (?d1 row_i)" using Cons.prems(2) \<open>x \<noteq> v\<close> by simp
    ultimately have "v \<in> set (snd (fold (revise_value row_i row_j) xs (True, ?d1)) row_i)"
      by (rule Cons.IH)
    with True show ?thesis by (simp add: revise_value_pair)
  next
    case False
    with Cons.IH [OF Cons.prems, of b] show ?thesis by (simp add: revise_value_pair)
  qed
qed

lemma revise_keeps:
  assumes "row_i \<noteq> row_j" and "v \<in> set (doms row_i)" and "w \<in> set (doms row_j)"
    and "\<not> attacks row_i v row_j w"
  shows "v \<in> set (snd (revise n row_i row_j doms) row_i)"
proof (cases "length (doms row_j) = 1")
  case True
  with assms(3) have "doms row_j = [w]" by (cases "doms row_j") auto
  from revise_singleton_keeps [OF this assms(2,4)] True show ?thesis by (simp add: revise_def)
next
  case False
  with revise_general_fold_keeps [OF assms(1,3,4,2), of "doms row_i" False]
  show ?thesis by (simp add: revise_def revise_general_def)
qed

lemma ac3_loop_keeps_placement:
  assumes "placement n S"
    and "\<forall>(i, j) \<in> set queue. i \<noteq> j \<and> i \<in> set (py_range n) \<and> j \<in> set (py_range n)"
    and "\<forall>r \<in> set (py_range n). S r \<in> set (doms r)"
  shows "fst (ac3_loop n queue doms)
         \<and> (\<forall>r \<in> set (py_range n). S r \<in> set (snd (ac3_loop n queue doms) r))"
  using assms
proof (induction n queue doms rule: ac3_loop.induct)
  case (1 n doms)
  then show ?case by simp
next
  case (2 n row_i row_j queue doms)
  obtain b d' where rv: "revise n row_i row_j doms = (b, d')"
    by (cases "revise n row_i row_j doms")
  from "2.prems"(2) have ij: "row_i \<noteq> row_j" "row_i \<in> set (py_range n)" "row_j \<in> set (py_range n)"
    by auto
  have "S row_i \<in> set (snd (revise n row_i row_j doms) row_i)"
    using ij "2.prems"(3) placementD [OF "2.prems"(1) ij(2,3,1)] by (intro revise_keeps) auto
  then have si: "S row_i \<in> set (d' row_i)" by (simp add: rv)
  have keep: "\<forall>r \<in> set (py_range n). S r \<in> set (d' r)"
  proof
    fix r assume r: "r \<in> set (py_range n)"
    show "S r \<in> set (d' r)"
    proof (cases "r = row_i")
      case True
      with si show ?thesis by simp
    next
      case False
      with revise_frame(3) [OF rv] "2.prems"(3) r show ?thesis by simp
    qed
  qed
  from si have ne: "d' row_i \<noteq> []" by auto
  show ?case
  proof (cases b)
    case True
    have q: "\<forall>(i, j) \<in> set (queue @ neighbours n row_i row_j).
               i \<noteq> j \<and> i \<in> set (py_range n) \<and> j \<in> set (py_range n)"
      using "2.prems"(2) ij by (auto simp: neighbours_def)
    from "2.IH"(1) [of "(b, d')" b d', OF _ _ True ne "2.prems"(1) q keep] rv True ne
    show ?thesis by simp
  next
    case False
    have q: "\<forall>(i, j) \<in> set queue. i \<noteq> j \<and> i \<in> set (py_range n) \<and> j \<in> set (py_range n)"
      using "2.prems"(2) by auto
    from "2.IH"(2) [of "(b, d')" b d', OF _ _ False "2.prems"(1) q keep] rv False
    show ?thesis by simp
  qed
qed

lemma forward_check_rows_keeps:
  assumes "forward_check_rows rows row col assignment doms pruned = (ok, doms', pruned')"
    and "v \<in> set (doms r)" and "\<not> attacks row col r v"
  shows "v \<in> set (doms' r)"
  using assms
proof (induction rows row col assignment doms pruned rule: forward_check_rows.induct)
  case (1 row col assignment doms pruned)
  then show ?case by simp
next
  case (2 other_row rest row col assignment doms pruned)
  show ?case
  proof (cases "other_row \<noteq> row \<and> \<not> has_key other_row assignment")
    case False
    with 2 show ?thesis by simp
  next
    case True
    let ?vals = "filter (\<lambda>other_col. attacks row col other_row other_col) (doms other_row)"
    let ?keep = "filter (\<lambda>other_col. \<not> attacks row col other_row other_col) (doms other_row)"
    let ?d1 = "doms(other_row := ?keep)"
    let ?p1 = "if ?vals \<noteq> [] then pruned_extend other_row ?vals pruned else pruned"
    have v1: "v \<in> set (?d1 r)" using "2.prems"(2,3) by auto
    show ?thesis
    proof (cases "?keep = []")
      case e: True
      with "2.prems"(1) True have "doms' = ?d1" by (simp add: Let_def)
      with v1 show ?thesis by simp
    next
      case ne: False
      with "2.prems"(1) True
      have "forward_check_rows rest row col assignment ?d1 ?p1 = (ok, doms', pruned')"
        by (simp add: Let_def)
      from "2.IH"(1) [OF True refl refl refl _ this v1 "2.prems"(3)] ne show ?thesis by simp
    qed
  qed
qed

lemma forward_check_rows_succeeds:
  assumes "\<forall>r \<in> set rows. r \<noteq> row \<and> \<not> has_key r assignment
             \<longrightarrow> (\<exists>v \<in> set (doms r). \<not> attacks row col r v)"
  shows "fst (forward_check_rows rows row col assignment doms pruned)"
  using assms
proof (induction rows row col assignment doms pruned rule: forward_check_rows.induct)
  case (1 row col assignment doms pruned)
  show ?case by simp
next
  case (2 other_row rest row col assignment doms pruned)
  show ?case
  proof (cases "other_row \<noteq> row \<and> \<not> has_key other_row assignment")
    case False
    have "\<forall>r \<in> set rest. r \<noteq> row \<and> \<not> has_key r assignment
             \<longrightarrow> (\<exists>v \<in> set (doms r). \<not> attacks row col r v)"
      using "2.prems" by simp
    from "2.IH"(2) [OF False this] False show ?thesis by auto
  next
    case True
    let ?vals = "filter (\<lambda>other_col. attacks row col other_row other_col) (doms other_row)"
    let ?keep = "filter (\<lambda>other_col. \<not> attacks row col other_row other_col) (doms other_row)"
    let ?d1 = "doms(other_row := ?keep)"
    let ?p1 = "if ?vals \<noteq> [] then pruned_extend other_row ?vals pruned else pruned"
    from "2.prems" True obtain v where "v \<in> set (doms other_row)" "\<not> attacks row col other_row v"
      by auto
    then have ne: "?keep \<noteq> []" by (auto simp: filter_empty_conv)
    have rest: "\<forall>r \<in> set rest. r \<noteq> row \<and> \<not> has_key r assignment
             \<longrightarrow> (\<exists>v \<in> set (?d1 r). \<not> attacks row col r v)"
      using "2.prems" by auto
    have eq: "forward_check_rows (other_row # rest) row col assignment doms pruned
              = forward_check_rows rest row col assignment ?d1 ?p1"
      using ne True by (simp add: Let_def)
    have "fst (forward_check_rows rest row col assignment ?d1 ?p1)"
      by (rule "2.IH"(1) [OF True refl refl refl _ rest]) (use ne in simp)
    then show ?thesis unfolding eq .
  qed
qed


text \<open>The search state agrees with a placement: what is committed is the placement's, and
  the placement's column of every free row is still in its domain.\<close>

definition supports :: "(int \<Rightarrow> int) \<Rightarrow> int \<Rightarrow> dict \<Rightarrow> domains \<Rightarrow> bool" where
  "supports S n assignment doms =
     ((\<forall>(r, c) \<in> set assignment. S r = c)
      \<and> (\<forall>r \<in> set (py_range n). \<not> has_key r assignment \<longrightarrow> S r \<in> set (doms r)))"

lemma supports_cong:
  assumes "supports S n assignment doms" and "\<And>r. set (doms' r) = set (doms r)"
  shows "supports S n assignment doms'"
  using assms by (simp add: supports_def)

lemma supports_consistent:
  assumes "placement n S" and "board_dict n assignment" and "supports S n assignment doms"
    and "row \<in> set (py_range n)" and "\<not> has_key row assignment"
  shows "is_consistent row (S row) assignment"
proof -
  have "\<not> attacks r c row (S row)" if "(r, c) \<in> set assignment" for r c
  proof -
    from that assms(3) have c: "S r = c" by (auto simp: supports_def)
    from that have k: "has_key r assignment" by (force simp: has_key_def)
    with assms(5) have ne: "r \<noteq> row" by auto
    from that assms(2) have "r \<in> set (py_range n)"
      by (force simp: board_dict_def list_all_iff set_py_range)
    from placementD [OF assms(1) this assms(4) ne] c show ?thesis by simp
  qed
  then show ?thesis by (auto simp: is_consistent_def list_all_iff)
qed

lemma supports_commit:
  assumes "placement n S" and "supports S n assignment doms"
    and "row \<in> set (py_range n)" and "\<not> has_key row assignment"
    and "forward_check n row (S row) (AList.update row (S row) assignment) doms [] = (ok, doms1, lp)"
  shows "ok" and "supports S n (AList.update row (S row) assignment) doms1"
proof -
  let ?asg = "AList.update row (S row) assignment"
  have free: "S r \<in> set (doms r) \<and> \<not> attacks row (S row) r (S r)"
    if "r \<in> set (py_range n)" and "r \<noteq> row \<and> \<not> has_key r ?asg" for r
  proof -
    from that(2) have "\<not> has_key r assignment" and ne: "row \<noteq> r" by (auto simp: has_key_update)
    with assms(2) that(1) have "S r \<in> set (doms r)" by (simp add: supports_def)
    with placementD [OF assms(1,3) that(1) ne] show ?thesis by simp
  qed
  then have "\<forall>r \<in> set (py_range n). r \<noteq> row \<and> \<not> has_key r ?asg
               \<longrightarrow> (\<exists>v \<in> set (doms r). \<not> attacks row (S row) r v)"
    by blast
  from forward_check_rows_succeeds [OF this, of "[]"] assms(5)
  show ok by (simp add: forward_check_def)
  have "S r \<in> set (doms1 r)" if "r \<in> set (py_range n)" and "\<not> has_key r ?asg" for r
  proof -
    from that(2) have "r \<noteq> row" by (auto simp: has_key_update)
    with free [OF that(1)] that(2)
    have "S r \<in> set (doms r)" and "\<not> attacks row (S row) r (S r)" by simp_all
    with forward_check_rows_keeps [OF assms(5) [unfolded forward_check_def]] show ?thesis .
  qed
  moreover have "\<forall>(r, c) \<in> set ?asg. S r = c"
    using assms(2) by (auto simp: update_new_key [OF assms(4)] supports_def)
  ultimately show "supports S n ?asg doms1" by (simp add: supports_def)
qed

lemma backtrack_complete:
  shows "placement n S \<Longrightarrow> 0 \<le> n \<Longrightarrow> board_dict n assignment \<Longrightarrow> supports S n assignment doms
         \<Longrightarrow> \<exists>A. fst (backtrack n assignment doms) = Solution A"
    and "placement n S \<Longrightarrow> 0 \<le> n \<Longrightarrow> board_dict n assignment \<Longrightarrow> supports S n assignment doms
         \<Longrightarrow> row \<in> set (py_range n) \<Longrightarrow> \<not> has_key row assignment \<Longrightarrow> S row \<in> set cols
         \<Longrightarrow> \<exists>A. fst (try_values n row cols assignment doms) = Solution A"
proof (induction n assignment doms and n row cols assignment doms rule: backtrack_induct)
  case (backtrack n assignment doms)
  show ?case
  proof (cases "int (length assignment) = n")
    case True
    then show ?thesis by simp
  next
    case False
    from board_dict_select [OF backtrack.prems(3) False backtrack.prems(2)]
    obtain row where sel: "select_unassigned_variable n assignment doms = Some row" by auto
    note free = select_unassigned_variable_Some [OF sel]
    from backtrack.prems(4) free have "S row \<in> set (doms row)" by (simp add: supports_def)
    then have "S row \<in> set (order_domain_values n row assignment doms)"
      by (simp add: set_order_domain_values)
    from backtrack.IH [OF False sel backtrack.prems free this] False sel show ?thesis by simp
  qed
next
  case (no_values n row assignment doms)
  then show ?case by simp
next
  case (try_value n row col cols assignment doms)
  let ?asg = "AList.update row col assignment"
  note prems = try_value.prems
  note pl = prems(1) and n0 = prems(2) and bd = prems(3) and sup = prems(4)
    and row = prems(5) and free = prems(6)
  have bd': "board_dict n ?asg" using bd row by (rule board_dict_update)
  show ?case
  proof (cases "is_consistent row col assignment")
    case False
    with supports_consistent [OF pl bd sup row free] have "col \<noteq> S row" by auto
    with prems(7) have rest: "S row \<in> set cols" by simp
    from False have eq: "try_values n row (col # cols) assignment doms = try_values n row cols assignment doms"
      by (simp add: try_values_Cons del: try_values.simps backtrack.simps)
    from try_value.IH(4) [OF False pl n0 bd sup row free rest] show ?thesis unfolding eq .
  next
    case True
    obtain ok doms1 lp where fc: "forward_check n row col ?asg doms [] = (ok, doms1, lp)"
      by (cases "forward_check n row col ?asg doms []")
    show ?thesis
    proof (cases "col = S row")
      case col: True
      from supports_commit [OF pl sup row free fc [unfolded col]]
      have ok: ok and sup': "supports S n ?asg doms1" by (simp_all add: col)
      from fc ok have fcT: "forward_check n row col ?asg doms [] = (True, doms1, lp)" by simp
      from try_value.IH(1) [OF True fcT pl n0 bd' sup']
      obtain A where A: "fst (backtrack n ?asg doms1) = Solution A" by blast
      obtain res doms2 where bt: "backtrack n ?asg doms1 = (res, doms2)"
        by (cases "backtrack n ?asg doms1")
      with A have "res = Solution A" by simp
      with True fcT bt have "fst (try_values n row (col # cols) assignment doms) = Solution A"
        by (simp add: try_values_Cons del: try_values.simps backtrack.simps)
      then show ?thesis by blast
    next
      case False
      with prems(7) have rest: "S row \<in> set cols" by simp
      show ?thesis
      proof (cases ok)
        case False
        with fc have fcF: "forward_check n row col ?asg doms [] = (False, doms1, lp)" by simp
        with True have eq: "try_values n row (col # cols) assignment doms
            = try_values n row cols assignment (restore lp doms1)"
          by (simp add: try_values_Cons del: try_values.simps backtrack.simps)
        have "supports S n assignment (restore lp doms1)"
          using sup forward_check_restore [OF fcF] by (rule supports_cong)
        from try_value.IH(3) [OF True fcF pl n0 bd this row free rest] show ?thesis unfolding eq .
      next
        case ok: True
        with fc have fcT: "forward_check n row col ?asg doms [] = (True, doms1, lp)" by simp
        obtain res doms2 where bt: "backtrack n ?asg doms1 = (res, doms2)"
          by (cases "backtrack n ?asg doms1")
        from backtrack_no_error(1) [OF bd' n0, of doms1] bt have nv: "res \<noteq> ValueError" by simp
        show ?thesis
        proof (cases res)
          case (Solution B)
          with True fcT bt have "fst (try_values n row (col # cols) assignment doms) = Solution B"
            by (simp add: try_values_Cons del: try_values.simps backtrack.simps)
          then show ?thesis by blast
        next
          case NoSolution
          with bt have btN: "backtrack n ?asg doms1 = (NoSolution, doms2)" by simp
          with True fcT have eq: "try_values n row (col # cols) assignment doms
              = try_values n row cols assignment (restore lp doms2)"
            by (simp add: try_values_Cons del: try_values.simps backtrack.simps)
          have "set (doms2 r) = set (doms1 r)" for r
            using backtrack_failure_restores(1) [of n ?asg doms1 r] btN by simp
          then have "set (restore lp doms2 r) = set (doms r)" for r
            using forward_check_restore [OF fcT, of r] by (simp add: set_restore)
          with sup have "supports S n assignment (restore lp doms2)" by (rule supports_cong)
          from try_value.IH(2) [OF True fcT btN pl n0 bd this row free rest]
          show ?thesis unfolding eq .
        next
          case ValueError
          with nv show ?thesis by simp
        qed
      qed
    qed
  qed
qed

lemma backtrack_search_complete:
  assumes "placement n S" and "0 \<le> n" and "\<forall>r \<in> set (py_range n). S r \<in> set (py_range n)"
  shows "\<exists>A. backtrack_search n [] (csp_init n []) = Solution A"
proof -
  let ?D = "csp_init n []"
  have d: "\<forall>r \<in> set (py_range n). S r \<in> set (?D r)"
    using assms(3) by (simp add: csp_init_empty init_domains_empty)
  have q: "\<forall>(i, j) \<in> set (all_arcs n). i \<noteq> j \<and> i \<in> set (py_range n) \<and> j \<in> set (py_range n)"
    by (auto simp: all_arcs_iff)
  obtain b d' where a: "ac3 n ?D = (b, d')" by (cases "ac3 n ?D")
  with ac3_loop_keeps_placement [OF assms(1) q d]
  have b: b and d': "\<forall>r \<in> set (py_range n). S r \<in> set (d' r)" by (simp_all add: ac3_def)
  have "board_dict n []" by (simp add: board_dict_def)
  moreover have "supports S n [] d'" using d' by (simp add: supports_def)
  ultimately obtain A where "fst (backtrack n [] d') = Solution A"
    using backtrack_complete(1) [OF assms(1,2)] by blast
  with a b show ?thesis by (simp add: backtrack_search_def)
qed

subsection \<open>A conflict-free placement on every board of size at least 4\<close>

text \<open>
  The backtracking search is complete, so on the empty board it succeeds as soon as some
  conflict-free placement exists. The classical explicit placements, by the residue of
  \<open>n\<close> modulo 6, give one for every \<open>n \<ge> 4\<close>.
\<close>

lemma attacks_lt: "i < j \<Longrightarrow> attacks i a j b = (a = b \<or> j - i = a - b \<or> j - i = b - a)"
  by (auto simp: attacks_def)

lemma no2: "2 * (x::int) \<noteq> 2 * y + 1"
  by presburger

lemma no3_1: "3 * (x::int) \<noteq> 3 * y + 1"
  by presburger

lemma no3_2: "3 * (x::int) \<noteq> 3 * y + 2"
  by presburger

text \<open>
  Boards of size \<open>n = 2k\<close> with \<open>k = 3m + 1\<close> (that is, \<open>n mod 6 = 2\<close>): the odd columns in
  the first \<open>k\<close> rows, then the even columns in the order \<open>2, 0, 6, 8, \<dots>, n - 2, 4\<close>.
\<close>

definition queens_b :: "int \<Rightarrow> int \<Rightarrow> int" where
  "queens_b k r =
     (if r < k then 2 * r + 1
      else if r = k then 2
      else if r = k + 1 then 0
      else if r = 2 * k - 1 then 4
      else 2 * (r - k) + 2)"

lemma queens_b_ok:
  assumes k: "k = 3 * m + 1" and m: "1 \<le> m" and i: "0 \<le> i" and lt: "i < j" and j: "j < 2 * k"
  shows "\<not> attacks i (queens_b k i) j (queens_b k j)"
proof -
  consider (iA) "i < k" | (iB) "i = k" | (iC) "i = k + 1" | (iD) "k + 2 \<le> i"
    by linarith
  then show ?thesis
  proof cases
    case iA
    consider (A) "j < k" | (B) "j = k" | (C) "j = k + 1" | (D) "k + 2 \<le> j" "j \<le> 2 * k - 2"
      | (E) "j = 2 * k - 1"
      using j by linarith
    then show ?thesis
    proof cases
      case A
      with \<open>i < k\<close> lt show ?thesis by (simp add: queens_b_def attacks_lt)
    next
      case B
      with \<open>i < k\<close> lt k m i no2 [of 1 i] no3_2 [of i m] show ?thesis by (simp add: queens_b_def attacks_lt; linarith)
    next
      case C
      with \<open>i < k\<close> lt k m i no3_1 [of i m] show ?thesis by (simp add: queens_b_def attacks_lt; linarith)
    next
      case D
      with \<open>i < k\<close> lt k m i no2 [of "j - 3 * m" i] no3_1 [of j "i + 2 * m"] show ?thesis by (simp add: queens_b_def attacks_lt; linarith)
    next
      case E
      with \<open>i < k\<close> lt k m i no2 [of 2 i] no3_1 [of i "2 * m + 1"] show ?thesis by (simp add: queens_b_def attacks_lt; linarith)
    qed
  next
    case iB
    consider (C) "j = k + 1" | (D) "k + 2 \<le> j" "j \<le> 2 * k - 2" | (E) "j = 2 * k - 1"
      using iB lt j by linarith
    then show ?thesis
    proof cases
      case C
      with iB lt k m show ?thesis by (simp add: queens_b_def attacks_lt)
    next
      case D
      with iB lt k m show ?thesis by (simp add: queens_b_def attacks_lt; linarith)
    next
      case E
      with iB lt k m show ?thesis by (simp add: queens_b_def attacks_lt; linarith)
    qed
  next
    case iC
    consider (D) "k + 2 \<le> j" "j \<le> 2 * k - 2" | (E) "j = 2 * k - 1"
      using iC lt j by linarith
    then show ?thesis
    proof cases
      case D
      with iC lt k m show ?thesis by (simp add: queens_b_def attacks_lt; linarith)
    next
      case E
      with iC lt k m no3_2 [of m 1] show ?thesis by (simp add: queens_b_def attacks_lt; linarith)
    qed
  next
    case iD
    consider (D) "k + 2 \<le> j" "j \<le> 2 * k - 2" | (E) "j = 2 * k - 1"
      using iD lt j by linarith
    then show ?thesis
    proof cases
      case D
      with \<open>k + 2 \<le> i\<close> lt k m show ?thesis by (simp add: queens_b_def attacks_lt)
    next
      case E
      with \<open>k + 2 \<le> i\<close> lt k m no3_2 [of i "4 * m + 1"] show ?thesis by (simp add: queens_b_def attacks_lt; linarith)
    qed
  qed
qed


text \<open>
  Boards of size \<open>n = 2k\<close> or \<open>n = 2k + 1\<close> with \<open>k mod 3 \<noteq> 1\<close> (that is, \<open>n mod 6\<close> is neither 2
  nor 3): the odd columns in the first \<open>k\<close> rows, then the even columns, both increasing.
\<close>

definition queens_a :: "int \<Rightarrow> int \<Rightarrow> int" where
  "queens_a k r = (if r < k then 2 * r + 1 else 2 * (r - k))"

lemma queens_a_ok:
  assumes n: "n = 2 * k \<or> n = 2 * k + 1" and k: "k mod 3 \<noteq> 1" and i: "0 \<le> i"
    and lt: "i < j" and j: "j < n"
  shows "\<not> attacks i (queens_a k i) j (queens_a k j)"
proof -
  consider "j < k" | "i < k" "k \<le> j" | "k \<le> i" using lt by linarith
  then show ?thesis
  proof cases
    case 1
    with lt show ?thesis by (simp add: queens_a_def attacks_lt)
  next
    case 2
    have "3 * j \<noteq> 3 * i + 2 * k + 1" using k by presburger
    moreover have "j \<noteq> i + 2 * k + 1" using n i j by linarith
    moreover have "2 * i + 1 \<noteq> 2 * (j - k)" by presburger
    ultimately show ?thesis using 2 lt by (simp add: queens_a_def attacks_lt)
  next
    case 3
    with lt show ?thesis by (simp add: queens_a_def attacks_lt)
  qed
qed

lemma queens_a_range:
  assumes "n = 2 * k \<or> n = 2 * k + 1" and "0 \<le> r" and "r < n"
  shows "0 \<le> queens_a k r \<and> queens_a k r < n"
  using assms by (auto simp: queens_a_def)

lemma queens_b_range:
  assumes "4 \<le> k" and "0 \<le> r" and "r < 2 * k"
  shows "0 \<le> queens_b k r \<and> queens_b k r < 2 * k"
  using assms by (auto simp: queens_b_def)

text \<open>
  Boards of size \<open>n = 2k + 1\<close> with \<open>k = 3m + 1\<close> (that is, \<open>n mod 6 = 3\<close>): the columns
  \<open>3, 5, \<dots>, n - 2, 1\<close> in the first \<open>k\<close> rows, then \<open>4, 6, \<dots>, n - 1, 0, 2\<close>.
\<close>

definition queens_c :: "int \<Rightarrow> int \<Rightarrow> int" where
  "queens_c k r =
     (if r < k - 1 then 2 * r + 3
      else if r = k - 1 then 1
      else if r = 2 * k - 1 then 0
      else if r = 2 * k then 2
      else 2 * (r - k) + 4)"

lemma queens_c_range:
  assumes "4 \<le> k" and "0 \<le> r" and "r < 2 * k + 1"
  shows "0 \<le> queens_c k r \<and> queens_c k r < 2 * k + 1"
  using assms by (auto simp: queens_c_def)

lemma queens_c_ok:
  assumes k: "k = 3 * m + 1" and m: "1 \<le> m" and i: "0 \<le> i" and lt: "i < j" and j: "j < 2 * k + 1"
  shows "\<not> attacks i (queens_c k i) j (queens_c k j)"
proof -
  consider (iA) "i < k - 1" | (iB) "i = k - 1" | (iD) "k \<le> i" "i \<le> 2 * k - 2" | (iE) "i = 2 * k - 1"
    using lt j by linarith
  then show ?thesis
  proof cases
    case iA
    consider (A) "j < k - 1" | (B) "j = k - 1" | (D) "k \<le> j" "j \<le> 2 * k - 2"
      | (E) "j = 2 * k - 1" | (F) "j = 2 * k"
      using j by linarith
    then show ?thesis
    proof cases
      case A
      with iA lt show ?thesis by (simp add: queens_c_def attacks_lt)
    next
      case B
      with iA lt k m i no3_1 [of i "m - 1"]
      show ?thesis by (simp add: queens_c_def attacks_lt; linarith)
    next
      case D
      with iA lt k m i no2 [of "j - 3 * m + 1" "i + 1"] no3_1 [of j "i + 2 * m"]
      show ?thesis by (simp add: queens_c_def attacks_lt; linarith)
    next
      case E
      with iA lt k m i no3_1 [of i "2 * m - 1"]
      show ?thesis by (simp add: queens_c_def attacks_lt; linarith)
    next
      case F
      with iA lt k m i no3_1 [of i "2 * m"]
      show ?thesis by (simp add: queens_c_def attacks_lt; linarith)
    qed
  next
    case iB
    consider (D) "k \<le> j" "j \<le> 2 * k - 2" | (E) "j = 2 * k - 1" | (F) "j = 2 * k"
      using iB lt j by linarith
    then show ?thesis
    proof cases
      case D
      with iB lt k m show ?thesis by (simp add: queens_c_def attacks_lt; linarith)
    next
      case E
      with iB lt k m show ?thesis by (simp add: queens_c_def attacks_lt; linarith)
    next
      case F
      with iB lt k m show ?thesis by (simp add: queens_c_def attacks_lt; linarith)
    qed
  next
    case iD
    consider (D) "k \<le> j" "j \<le> 2 * k - 2" | (E) "j = 2 * k - 1" | (F) "j = 2 * k"
      using iD lt j by linarith
    then show ?thesis
    proof cases
      case D
      with iD lt k m show ?thesis by (simp add: queens_c_def attacks_lt)
    next
      case E
      with iD lt k m no3_2 [of i "4 * m - 1"]
      show ?thesis by (simp add: queens_c_def attacks_lt; linarith)
    next
      case F
      with iD lt k m no3_2 [of i "4 * m"]
      show ?thesis by (simp add: queens_c_def attacks_lt; linarith)
    qed
  next
    case iE
    with lt j have "j = 2 * k" by linarith
    with iE k m show ?thesis by (simp add: queens_c_def attacks_lt)
  qed
qed

lemma queens_exist:
  assumes "4 \<le> n"
  shows "\<exists>S. (\<forall>i j. 0 \<le> i \<and> i < j \<and> j < n \<longrightarrow> \<not> attacks i (S i) j (S j))
             \<and> (\<forall>r. 0 \<le> r \<and> r < n \<longrightarrow> 0 \<le> S r \<and> S r < n)"
proof -
  define k where "k = n div 2"
  have n: "n = 2 * k \<or> n = 2 * k + 1" unfolding k_def by presburger
  show ?thesis
  proof (cases "k mod 3 = 1")
    case False
    from queens_a_ok [OF n False] queens_a_range [OF n]
    show ?thesis by (intro exI [of _ "queens_a k"]) blast
  next
    case True
    define m where "m = k div 3"
    have k: "k = 3 * m + 1" using True unfolding m_def by presburger
    have "2 \<le> k" using assms n by linarith
    with k have m: "1 \<le> m" by linarith
    then have k4: "4 \<le> k" using k by linarith
    from n show ?thesis
    proof
      assume e: "n = 2 * k"
      from queens_b_ok [OF k m] queens_b_range [OF k4]
      show ?thesis unfolding e by (intro exI [of _ "queens_b k"]) blast
    next
      assume e: "n = 2 * k + 1"
      from queens_c_ok [OF k m] queens_c_range [OF k4]
      show ?thesis unfolding e by (intro exI [of _ "queens_c k"]) blast
    qed
  qed
qed


lemma placement_exists:
  assumes "4 \<le> n"
  shows "\<exists>S. placement n S \<and> (\<forall>r \<in> set (py_range n). S r \<in> set (py_range n))"
proof -
  from queens_exist [OF assms] obtain S
    where ok: "\<And>i j. 0 \<le> i \<Longrightarrow> i < j \<Longrightarrow> j < n \<Longrightarrow> \<not> attacks i (S i) j (S j)"
      and rg: "\<And>r. 0 \<le> r \<Longrightarrow> r < n \<Longrightarrow> 0 \<le> S r \<and> S r < n"
    by blast
  have "\<not> attacks i (S i) j (S j)" if "0 \<le> i" "i < n" "0 \<le> j" "j < n" "i \<noteq> j" for i j
  proof (cases "i < j")
    case True
    with that show ?thesis by (simp add: ok)
  next
    case False
    with that have "j < i" by simp
    with that have "\<not> attacks j (S j) i (S i)" by (simp add: ok)
    then show ?thesis by (simp add: attacks_sym [of i])
  qed
  then have "placement n S" by (simp add: placement_def set_py_range)
  moreover have "\<forall>r \<in> set (py_range n). S r \<in> set (py_range n)"
    using rg by (simp add: set_py_range)
  ultimately show ?thesis by blast
qed

subsection \<open>The empty board\<close>

text \<open>
  Claim C1, amended: for every \<open>n \<ge> 4\<close>, \<^verbatim>\<open>solve\<close> on the empty board raises no error, and
  whatever assignment it returns is complete (its \<open>n\<close> keys are the rows of \<^verbatim>\<open>range(n)\<close>) and
  has zero conflicts: every two different rows have different columns and
  \<open>|r1 - r2| \<noteq> |c1 - c2|\<close>. For \<open>4 \<le> n \<le> 100\<close> (the backtracking path) it does return an
  assignment. For \<open>n > 100\<close> (the min-conflicts path) it may instead report infeasible,
  when the random draws use up the budget of \<open>100 n\<close> steps.
\<close>

theorem solve_empty_board:
  assumes "4 \<le> n"
  shows "solve n [] rnd \<noteq> ValueError
    \<and> (n \<le> 100 \<longrightarrow> (\<exists>A. solve n [] rnd = Solution A))
    \<and> (\<forall>A. solve n [] rnd = Solution A \<longrightarrow>
          int (length A) = n \<and> set (map fst A) = set (py_range n)
          \<and> (\<forall>(r1, c1) \<in> set A. \<forall>(r2, c2) \<in> set A.
                r1 \<noteq> r2 \<longrightarrow> c1 \<noteq> c2 \<and> \<bar>r1 - r2\<bar> \<noteq> \<bar>c1 - c2\<bar>))"
proof (intro conjI allI impI)
  from assms have n0: "0 \<le> n" by simp
  have "board_dict n []" by (simp add: board_dict_def)
  with n0 show "solve n [] rnd \<noteq> ValueError" by (rule solve_no_error)
  {
    assume le: "n \<le> 100"
    from placement_exists [OF assms] obtain S where "placement n S"
      and "\<forall>r \<in> set (py_range n). S r \<in> set (py_range n)" by blast
    from backtrack_search_complete [OF this(1) n0 this(2)] le
    show "\<exists>A. solve n [] rnd = Solution A" by (simp add: solve_def)
  }
  fix A assume A: "solve n [] rnd = Solution A"
  from solve_empty_sound [OF A]
  show "int (length A) = n" and "set (map fst A) = set (py_range n)"
    and "\<forall>(r1, c1) \<in> set A. \<forall>(r2, c2) \<in> set A.
           r1 \<noteq> r2 \<longrightarrow> c1 \<noteq> c2 \<and> \<bar>r1 - r2\<bar> \<noteq> \<bar>c1 - c2\<bar>"
    by (auto simp: is_valid_solution_iff attacks_def)
qed

theorem solve_empty_board_witness:
  "(4::int) \<le> 4 \<and> (4::int) \<le> 100
   \<and> solve 4 [] first_choice = Solution [(0, 1), (1, 3), (2, 0), (3, 2)]
   \<and> int (length [(0, 1), (1, 3), (2, 0), (3, 2 :: int)]) = 4
   \<and> set (map fst [(0, 1), (1, 3), (2, 0), (3, 2 :: int)]) = set (py_range 4)
   \<and> is_valid_solution [(0, 1), (1, 3), (2, 0), (3, 2)]"
proof -
  have 1: "(4::int) \<le> 4" by simp
  have 2: "solve 4 [] first_choice = Solution [(0, 1), (1, 3), (2, 0), (3, 2)]" by code_simp
  from solve_empty_board [OF 1, of first_choice] 2
  show ?thesis by (simp add: is_valid_solution_iff attacks_def)
qed

end
